theory Spec2Isabelle
  imports Main "HOL-Library.Word" "HOL-Library.Multiset" "HOL-Library.List_Lexorder" "HOL-Library.Char_ord"
begin

unbundle bit_operations_syntax

section \<open>Python values: bytes, errors, packing, the random generator\<close>

type_synonym byte = "8 word"

datatype py_error =
  ValueError | IndexError | KeyError | TypeError | StructError | OSError | ZeroDivisionError
  | OverflowError

text \<open>
  A value of a metadata or \<open>fill_params\<close> dictionary, of the JSON sidecar or of a worker's
  result. Two kinds of value are kept by what determines them rather than as text or
  float: \<open>JTime t\<close> is the text \<open>time.strftime("%Y-%m-%dT%H:%M:%SZ", time.gmtime())\<close>
  gives at the UTC second \<open>t\<close>, and \<open>JRound3 a b\<close> is the float \<open>round(a / b, 3)\<close>.
\<close>

datatype json =
  JStr string | JInt int | JBool bool | JNone
  | JTime int | JRound3 int int | JList "json list" | JObj "(string \<times> json) list"


text \<open>\<open>str(n)\<close> for an integer, and \<open>f"{n:06d}"\<close>.\<close>

fun digits :: "nat \<Rightarrow> string" where
  "digits n = (if n < 10 then [char_of (48 + n)] else digits (n div 10) @ [char_of (48 + n mod 10)])"

definition str_int :: "int \<Rightarrow> string" where
  "str_int i = (if i < 0 then CHR ''-'' # digits (nat (- i)) else digits (nat i))"

definition fmt_06d :: "int \<Rightarrow> string" where
  "fmt_06d i = (if i < 0
     then CHR ''-'' # replicate (5 - length (digits (nat (- i)))) CHR ''0'' @ digits (nat (- i))
     else replicate (6 - length (digits (nat i))) CHR ''0'' @ digits (nat i))"


definition le32 :: "int \<Rightarrow> byte list" where
  "le32 v = [word_of_int v, word_of_int (v div 256), word_of_int (v div 65536),
             word_of_int (v div 16777216)]"




definition pack_I :: "bool \<Rightarrow> int \<Rightarrow> py_error + byte list" where
  "pack_I big v = (if 0 \<le> v \<and> v < 4294967296
     then Inr (if big then rev (le32 v) else le32 v) else Inl StructError)"


text \<open>Several packed fields in a row: the first error wins, as the exception would.\<close>

fun pack_all :: "(py_error + byte list) list \<Rightarrow> py_error + byte list" where
  "pack_all [] = Inr []"
| "pack_all (p # ps) =
     (case p of Inl e \<Rightarrow> Inl e
      | Inr b \<Rightarrow> (case pack_all ps of Inl e \<Rightarrow> Inl e | Inr bs \<Rightarrow> Inr (b @ bs)))"

text \<open>Reading bytes back as an unsigned integer (what a consumer of the image does).\<close>

definition le_int :: "byte list \<Rightarrow> int" where
  "le_int bs = foldr (\<lambda>b acc. uint b + 256 * acc) bs 0"






text \<open>
  The generator \<open>random.Random\<close>. Its state is the list of outcomes still to come of its
  primitive draws (\<open>_randbelow\<close> for \<open>choice\<close>, \<open>randint\<close> and \<open>shuffle\<close>; the 53
  random bits of \<open>random()\<close>; \<open>getrandbits\<close> for \<open>randbytes\<close>); an exhausted list
  keeps drawing 0. How a seed determines the outcomes (the Mersenne Twister) is a
  parameter wherever a generator is created from a seed.
\<close>

type_synonym rng = "nat list"

definition draw :: "rng \<Rightarrow> nat \<times> rng" where
  "draw g = (case g of [] \<Rightarrow> (0, []) | d # g' \<Rightarrow> (d, g'))"

definition randbelow :: "nat \<Rightarrow> rng \<Rightarrow> nat \<times> rng" where
  "randbelow n g = (case draw g of (d, g') \<Rightarrow> (d mod n, g'))"

text \<open>\<open>rng.choice(seq)\<close> is \<open>seq[_randbelow(len(seq))]\<close>; every caller passes a non-empty
  sequence (a literal, or one it has tested).\<close>

definition choice :: "'a list \<Rightarrow> rng \<Rightarrow> 'a \<times> rng" where
  "choice xs g = (case randbelow (length xs) g of (i, g') \<Rightarrow> (xs ! i, g'))"

text \<open>\<open>rng.randint(a, b)\<close> is \<open>a + _randbelow(b - a + 1)\<close>; every caller has \<open>a \<le> b\<close>.\<close>

definition randint :: "int \<Rightarrow> int \<Rightarrow> rng \<Rightarrow> int \<times> rng" where
  "randint a b g = (case randbelow (nat (b - a + 1)) g of (i, g') \<Rightarrow> (a + int i, g'))"

text \<open>\<open>rng.random()\<close> is \<open>k / 2^53\<close> for 53 random bits \<open>k\<close>; this returns \<open>k\<close>.\<close>

definition random53 :: "rng \<Rightarrow> nat \<times> rng" where
  "random53 g = (case draw g of (d, g') \<Rightarrow> (d mod 9007199254740992, g'))"




section \<open>The ISA-family database (\<open>firmware/config.py\<close>)\<close>

record IsaFamily =
  name :: string
  endianness :: string
  pointer_width :: int
  triples :: "string list"
  header_types :: "string list"
  typical_base_addr :: int
  alignment :: int

definition ISA_FAMILIES :: "(string \<times> IsaFamily) list" where
  "ISA_FAMILIES = [
    (''arm32'', \<lparr>name = ''arm32'', endianness = ''little'', pointer_width = 32,
       triples = [''arm-unknown-linux-gnueabi'', ''arm-unknown-linux-gnueabihf'',
                  ''armv7-unknown-linux-gnueabihf''],
       header_types = [''vector_table_arm'', ''uboot'', ''android_boot'', ''bare''],
       typical_base_addr = 0x00000000, alignment = 4\<rparr>),
    (''thumb'', \<lparr>name = ''thumb'', endianness = ''little'', pointer_width = 32,
       triples = [''thumbv7m-none-eabi''],
       header_types = [''vector_table_cortexm'', ''bare''],
       typical_base_addr = 0x08000000, alignment = 2\<rparr>),
    (''aarch64'', \<lparr>name = ''aarch64'', endianness = ''little'', pointer_width = 64,
       triples = [''aarch64-unknown-linux-gnu'', ''aarch64-unknown-linux-musl''],
       header_types = [''uboot'', ''android_boot'', ''bare''],
       typical_base_addr = 0x40000000, alignment = 4\<rparr>),
    (''x86'', \<lparr>name = ''x86'', endianness = ''little'', pointer_width = 32,
       triples = [''i686-unknown-linux-gnu''],
       header_types = [''bios_boot'', ''uefi_stub'', ''bare''],
       typical_base_addr = 0x00007C00, alignment = 1\<rparr>),
    (''x86_64'', \<lparr>name = ''x86_64'', endianness = ''little'', pointer_width = 64,
       triples = [''x86_64-unknown-linux-gnu'', ''x86_64-unknown-linux-musl''],
       header_types = [''uefi_stub'', ''bios_boot'', ''uboot'', ''bare''],
       typical_base_addr = 0x00100000, alignment = 1\<rparr>),
    (''riscv32'', \<lparr>name = ''riscv32'', endianness = ''little'', pointer_width = 32,
       triples = [''riscv32-unknown-linux-gnu'', ''riscv32-unknown-elf''],
       header_types = [''opensbi_stub'', ''uboot'', ''bare''],
       typical_base_addr = 0x80000000, alignment = 4\<rparr>),
    (''riscv64'', \<lparr>name = ''riscv64'', endianness = ''little'', pointer_width = 64,
       triples = [''riscv64-unknown-linux-gnu'', ''riscv64-unknown-elf''],
       header_types = [''opensbi_stub'', ''uboot'', ''bare''],
       typical_base_addr = 0x80000000, alignment = 4\<rparr>),
    (''mips32_be'', \<lparr>name = ''mips32_be'', endianness = ''big'', pointer_width = 32,
       triples = [''mips-unknown-linux-gnu''],
       header_types = [''boot_vector_mips'', ''uboot'', ''tplink'', ''bare''],
       typical_base_addr = 0xBFC00000, alignment = 4\<rparr>),
    (''mips32_le'', \<lparr>name = ''mips32_le'', endianness = ''little'', pointer_width = 32,
       triples = [''mipsel-unknown-linux-gnu''],
       header_types = [''boot_vector_mips'', ''uboot'', ''tplink'', ''bare''],
       typical_base_addr = 0xBFC00000, alignment = 4\<rparr>),
    (''mips64_be'', \<lparr>name = ''mips64_be'', endianness = ''big'', pointer_width = 64,
       triples = [''mips64-unknown-linux-gnuabi64''],
       header_types = [''boot_vector_mips'', ''uboot'', ''bare''],
       typical_base_addr = 0xFFFFFFFF80000000, alignment = 4\<rparr>),
    (''mips64_le'', \<lparr>name = ''mips64_le'', endianness = ''little'', pointer_width = 64,
       triples = [''mips64el-unknown-linux-gnuabi64''],
       header_types = [''boot_vector_mips'', ''uboot'', ''bare''],
       typical_base_addr = 0xFFFFFFFF80000000, alignment = 4\<rparr>),
    (''ppc32'', \<lparr>name = ''ppc32'', endianness = ''big'', pointer_width = 32,
       triples = [''powerpc-unknown-linux-gnu''],
       header_types = [''uboot'', ''bare''],
       typical_base_addr = 0x00000000, alignment = 4\<rparr>),
    (''ppc64_be'', \<lparr>name = ''ppc64_be'', endianness = ''big'', pointer_width = 64,
       triples = [''powerpc64-unknown-linux-gnu''],
       header_types = [''uboot'', ''bare''],
       typical_base_addr = 0x00000000, alignment = 4\<rparr>),
    (''ppc64_le'', \<lparr>name = ''ppc64_le'', endianness = ''little'', pointer_width = 64,
       triples = [''powerpc64le-unknown-linux-gnu''],
       header_types = [''uboot'', ''bare''],
       typical_base_addr = 0x00000000, alignment = 4\<rparr>),
    (''sparc32'', \<lparr>name = ''sparc32'', endianness = ''big'', pointer_width = 32,
       triples = [''sparc-unknown-linux-gnu''],
       header_types = [''uboot'', ''bare''],
       typical_base_addr = 0x00000000, alignment = 4\<rparr>),
    (''sparc64'', \<lparr>name = ''sparc64'', endianness = ''big'', pointer_width = 64,
       triples = [''sparc64-unknown-linux-gnu''],
       header_types = [''uboot'', ''bare''],
       typical_base_addr = 0x00000000, alignment = 4\<rparr>),
    (''s390x'', \<lparr>name = ''s390x'', endianness = ''big'', pointer_width = 64,
       triples = [''s390x-unknown-linux-gnu''],
       header_types = [''uboot'', ''bare''],
       typical_base_addr = 0x00000000, alignment = 4\<rparr>),
    (''loongarch64'', \<lparr>name = ''loongarch64'', endianness = ''little'', pointer_width = 64,
       triples = [''loongarch64-unknown-linux-gnu''],
       header_types = [''uboot'', ''bare''],
       typical_base_addr = 0x9000000000000000, alignment = 4\<rparr>),
    (''avr'', \<lparr>name = ''avr'', endianness = ''little'', pointer_width = 16,
       triples = [''avr-unknown-unknown''],
       header_types = [''avr_vector_table'', ''bare''],
       typical_base_addr = 0x0000, alignment = 2\<rparr>),
    (''msp430'', \<lparr>name = ''msp430'', endianness = ''little'', pointer_width = 16,
       triples = [''msp430-none-elf''],
       header_types = [''msp430_vector_table'', ''bare''],
       typical_base_addr = 0xC000, alignment = 2\<rparr>),
    (''hexagon'', \<lparr>name = ''hexagon'', endianness = ''little'', pointer_width = 32,
       triples = [''hexagon-unknown-linux-musl''],
       header_types = [''qualcomm_mbn'', ''bare''],
       typical_base_addr = 0x00000000, alignment = 4\<rparr>)]"

text \<open>The affinity weights are floats in the source; they are kept exactly, in halves
  (3.0 is 6, 0.5 is 1), since only their ratios decide a weighted choice.\<close>

definition MULTI_ISA_AFFINITY :: "(string \<times> (string \<times> nat) list) list" where
  "MULTI_ISA_AFFINITY = [
    (''arm32'', [(''thumb'', 6), (''aarch64'', 2)]),
    (''thumb'', [(''arm32'', 6)]),
    (''aarch64'', [(''arm32'', 4), (''thumb'', 2)]),
    (''x86_64'', [(''x86'', 4), (''arm32'', 2)]),
    (''x86'', [(''x86_64'', 2)]),
    (''mips32_be'', [(''mips32_le'', 1)]),
    (''mips32_le'', [(''mips32_be'', 1)]),
    (''mips64_be'', [(''mips32_be'', 4)]),
    (''mips64_le'', [(''mips32_le'', 4)]),
    (''riscv64'', [(''riscv32'', 4)]),
    (''riscv32'', [(''riscv64'', 2)]),
    (''ppc64_be'', [(''ppc32'', 2)]),
    (''ppc64_le'', [(''ppc32'', 1)]),
    (''hexagon'', [(''arm32'', 4), (''aarch64'', 2)])]"

text \<open>The fields of \<open>FirmwareGenConfig\<close> the layout engine and the assembler read.
  \<open>multi_isa_probability\<close> is a float in the source; it is kept as the natural number
  \<open>p\<close> such that \<open>rng.random() < multi_isa_probability\<close> holds exactly for the draws
  \<open>k < p\<close> of \<open>random53\<close>.\<close>

record FirmwareGenConfig =
  seed :: int
  num_images :: int
  min_size :: int
  max_size :: int
  multi_isa_probability :: nat
  min_images_per_combo :: int


section \<open>Header and trailer generators (\<open>firmware/headers.py\<close>)\<close>

record TrailerResult =
  data :: "byte list"
  metadata :: "(string \<times> json) list"

record HeaderResult = TrailerResult +
  entry_point_offset :: int

text \<open>The keyword arguments a header generator reads with \<open>kwargs.get\<close>.\<close>

record kwargs =
  kw_total_size :: "int option"
  kw_base_addr :: "int option"
  kw_family_name :: "string option"

definition kw_get :: "'a option \<Rightarrow> 'a \<Rightarrow> 'a" where
  "kw_get v d = (case v of None \<Rightarrow> d | Some x \<Rightarrow> x)"





subsection \<open>Vector tables\<close>

text \<open>The loop \<open>for i in range(num_vectors - 2)\<close> of \<open>vector_table_cortexm\<close>; the first
  argument counts the iterations left.\<close>

fun cortexm_handlers :: "nat \<Rightarrow> int \<Rightarrow> int \<Rightarrow> rng \<Rightarrow> int list \<times> rng" where
  "cortexm_handlers 0 base_addr num_vectors g = ([], g)"
| "cortexm_handlers (Suc n) base_addr num_vectors g =
     (case randint 0 0x1000 g of (d, g1) \<Rightarrow>
      let handler = (base_addr + (num_vectors * 4) + d) OR 1 in
      (case cortexm_handlers n base_addr num_vectors g1 of (hs, g2) \<Rightarrow> (handler # hs, g2)))"

definition vector_table_cortexm ::
  "string \<Rightarrow> rng \<Rightarrow> kwargs \<Rightarrow> py_error + (HeaderResult \<times> rng)" where
  "vector_table_cortexm endi g kw =
     (let base_addr = kw_get (kw_base_addr kw) 0x08000000 in
      case choice [16, 32, 48, 64] g of (num_vectors, g1) \<Rightarrow>
      case choice [0x20005000, 0x20010000, 0x20020000, 0x20040000] g1 of (sp, g2) \<Rightarrow>
      let reset_addr = (base_addr + (num_vectors * 4)) OR 1 in
      case cortexm_handlers (nat (num_vectors - 2)) base_addr num_vectors g2 of (hs, g3) \<Rightarrow>
      case pack_all (map (pack_I False) (sp # reset_addr # hs)) of
        Inl e \<Rightarrow> Inl e
      | Inr d \<Rightarrow> Inr (\<lparr>data = d,
           metadata = [(''header_type'', JStr ''vector_table_cortexm''),
                       (''num_vectors'', JInt num_vectors)],
           entry_point_offset = int (length d)\<rparr>, g3))"










subsection \<open>Firmware container headers\<close>











subsection \<open>Trailer generators and the registries\<close>








section \<open>The blob index (\<open>firmware/extractor.py\<close>)\<close>

record BlobInfo =
  path :: "string list"
  family :: string
  triple :: string
  config :: string
  program :: string
  size_bytes :: int

text \<open>The directory tree under \<open>objects_dir\<close>: its regular files in the order the
  directory enumeration yields them, each with its path relative to \<open>objects_dir\<close> (one
  string per component) and its contents (\<open>None\<close> when reading the file fails with
  \<open>OSError\<close>).\<close>

type_synonym files = "(string list \<times> byte list option) list"

definition is_bin :: "string list \<Rightarrow> bool" where
  "is_bin parts = (parts \<noteq> [] \<and> 4 \<le> length (last parts)
     \<and> drop (length (last parts) - 4) (last parts) = ''.bin'')"

text \<open>\<open>Path.stem\<close> of a file name that matches \<open>*.bin\<close>.\<close>

definition stem :: "string list \<Rightarrow> string" where
  "stem parts = (if last parts = ''.bin'' then ''.bin''
     else take (length (last parts) - 4) (last parts))"

text \<open>The dictionary \<open>_blobs_by_family\<close>, in insertion order.\<close>

type_synonym BlobIndex = "(string \<times> BlobInfo list) list"

fun dict_append :: "(string \<times> 'a list) list \<Rightarrow> string \<Rightarrow> 'a \<Rightarrow> (string \<times> 'a list) list" where
  "dict_append [] k v = [(k, [v])]"
| "dict_append ((k', vs) # rest) k v =
     (if k' = k then (k', vs @ [v]) # rest else (k', vs) # dict_append rest k v)"

text \<open>\<open>BlobIndex._scan\<close>: one step for each file of \<open>sorted(objects_dir.rglob("*.bin"))\<close>.
  The size of a file is the length of its contents.\<close>

definition scan_file :: "string list \<times> byte list option \<Rightarrow> BlobIndex \<Rightarrow> BlobIndex" where
  "scan_file f idx =
     (let parts = fst f; sz = (case snd f of None \<Rightarrow> 0 | Some bs \<Rightarrow> int (length bs)) in
      if length parts < 4 then idx
      else if sz = 0 then idx
      else dict_append idx (parts ! 0)
             \<lparr>path = parts, family = parts ! 0, triple = parts ! 1, config = parts ! 2,
              program = stem parts, size_bytes = sz\<rparr>)"

definition scan :: "files \<Rightarrow> BlobIndex" where
  "scan fs = fold scan_file (sort_key fst (filter (\<lambda>f. is_bin (fst f)) fs)) []"

definition families :: "BlobIndex \<Rightarrow> string list" where
  "families idx = sort (map fst idx)"

definition get_blobs :: "BlobIndex \<Rightarrow> string \<Rightarrow> BlobInfo list" where
  "get_blobs idx fam = (case map_of idx fam of None \<Rightarrow> [] | Some bs \<Rightarrow> bs)"

definition blob_count :: "BlobIndex \<Rightarrow> string \<Rightarrow> nat" where
  "blob_count idx fam = length (get_blobs idx fam)"

definition get_random_blob :: "BlobIndex \<Rightarrow> string \<Rightarrow> rng \<Rightarrow> BlobInfo option \<times> rng" where
  "get_random_blob idx fam g =
     (let blobs = get_blobs idx fam in
      if blobs = [] then (None, g)
      else (case choice blobs g of (b, g') \<Rightarrow> (Some b, g')))"

section \<open>The layout engine (\<open>firmware/layout.py\<close>)\<close>

datatype SectionType =
  HEADER | CODE | PADDING | STRING_TABLE | FILESYSTEM | RANDOM | RODATA | TRAILER

record SectionSpec =
  offset :: int
  size_s :: int
  section_type :: SectionType
  alignment :: int
  isa_family :: "string option"
  fill_params :: "(string \<times> json) list"

record ImageLayout =
  image_id :: string
  total_size :: int
  primary_isa :: string
  header_type :: string
  trailer_type :: string
  sections :: "SectionSpec list"
  all_isa_families :: "string list"
  seed :: int

text \<open>\<open>"+".join(xs)\<close> and \<open>label.split("+")\<close>.\<close>

fun join :: "string \<Rightarrow> string list \<Rightarrow> string" where
  "join sep [] = []"
| "join sep [x] = x"
| "join sep (x # y # ys) = x @ sep @ join sep (y # ys)"

fun split_on :: "char \<Rightarrow> string \<Rightarrow> string list" where
  "split_on c [] = [[]]"
| "split_on c (x # xs) =
     (if x = c then [] # split_on c xs
      else (case split_on c xs of [] \<Rightarrow> [[x]] | w # ws \<Rightarrow> (x # w) # ws))"

definition isa_label :: "ImageLayout \<Rightarrow> string" where
  "isa_label l = join ''+'' (sort (all_isa_families l))"

definition is_multi_isa :: "ImageLayout \<Rightarrow> bool" where
  "is_multi_isa l = (length (all_isa_families l) > 1)"

definition code_sections :: "ImageLayout \<Rightarrow> SectionSpec list" where
  "code_sections l = filter (\<lambda>s. section_type s = CODE) (sections l)"

definition code_bytes :: "ImageLayout \<Rightarrow> int" where
  "code_bytes l = sum_list (map size_s (code_sections l))"

definition NON_CODE_WEIGHTS :: "(SectionType \<times> nat) list" where
  "NON_CODE_WEIGHTS = [(PADDING, 40), (STRING_TABLE, 15), (FILESYSTEM, 10), (RANDOM, 20),
                       (RODATA, 15)]"

definition TRAILER_WEIGHTS :: "(string \<times> nat) list" where
  "TRAILER_WEIGHTS = [(''crc32'', 40), (''md5'', 20), (''sha256'', 10), (''none'', 30)]"

definition TRAILER_SIZES :: "(string \<times> int) list" where
  "TRAILER_SIZES = [(''crc32'', 4), (''md5'', 16), (''sha256'', 32), (''none'', 0)]"

text \<open>\<open>_weighted_choice\<close>. With \<open>rng.random() = k / 2^53\<close> the test \<open>r <= cumulative\<close>
  for \<open>r = rng.random() * total\<close> is \<open>k * total \<le> cumulative * 2^53\<close>. Every caller
  passes a non-empty list of options.\<close>

fun weighted_scan :: "nat \<Rightarrow> nat \<Rightarrow> ('a \<times> nat) list \<Rightarrow> 'a option" where
  "weighted_scan r cumulative [] = None"
| "weighted_scan r cumulative ((item, weight) # rest) =
     (if r \<le> (cumulative + weight) * 9007199254740992 then Some item
      else weighted_scan r (cumulative + weight) rest)"

definition weighted_choice :: "('a \<times> nat) list \<Rightarrow> rng \<Rightarrow> 'a \<times> rng" where
  "weighted_choice options g =
     (case random53 g of (k, g') \<Rightarrow>
      let total = sum_list (map snd options) in
      (case weighted_scan (k * total) 0 options of
         Some item \<Rightarrow> (item, g')
       | None \<Rightarrow> (fst (last options), g')))"

definition align_up :: "int \<Rightarrow> int \<Rightarrow> int" where
  "align_up v a = (if a \<le> 1 then v else (v + a - 1) AND NOT (a - 1))"

record LayoutEngine =
  blob_index :: BlobIndex
  config :: FirmwareGenConfig
  family_weights :: "(string \<times> nat) list"

text \<open>\<open>LayoutEngine.__init__\<close>: the families of the index that the database knows and
  that hold blobs, weighted by their blob counts; \<open>ValueError\<close> when there is none.\<close>

definition build_family_weights :: "BlobIndex \<Rightarrow> (string \<times> nat) list" where
  "build_family_weights idx =
     concat (map (\<lambda>fam. if map_of ISA_FAMILIES fam \<noteq> None \<and> blob_count idx fam > 0
                         then [(fam, blob_count idx fam)] else [])
                 (families idx))"

definition new_LayoutEngine :: "BlobIndex \<Rightarrow> FirmwareGenConfig \<Rightarrow> py_error + LayoutEngine" where
  "new_LayoutEngine idx cfg =
     (if build_family_weights idx = [] then Inl ValueError
      else Inr \<lparr>blob_index = idx, config = cfg, family_weights = build_family_weights idx\<rparr>)"

definition pick_primary_isa :: "LayoutEngine \<Rightarrow> rng \<Rightarrow> string \<times> rng" where
  "pick_primary_isa E g = weighted_choice (family_weights E) g"

text \<open>The loop of \<open>_pick_secondary_isas\<close>; the first argument counts the iterations left
  of \<open>range(min(count, len(pool)))\<close>.\<close>

fun pick_secondaries_loop :: "nat \<Rightarrow> (string \<times> nat) list \<Rightarrow> rng \<Rightarrow> string list \<times> rng" where
  "pick_secondaries_loop 0 pool g = ([], g)"
| "pick_secondaries_loop (Suc n) pool g =
     (case weighted_choice pool g of (pick, g1) \<Rightarrow>
      let pool' = filter (\<lambda>fw. fst fw \<noteq> pick) pool in
      if pool' = [] then ([pick], g1)
      else (case pick_secondaries_loop n pool' g1 of (rest, g2) \<Rightarrow> (pick # rest, g2)))"

definition pick_secondary_isas :: "LayoutEngine \<Rightarrow> string \<Rightarrow> rng \<Rightarrow> string list \<times> rng" where
  "pick_secondary_isas E primary g =
     (let affinity = (case map_of MULTI_ISA_AFFINITY primary of None \<Rightarrow> [] | Some a \<Rightarrow> a);
          available = filter (\<lambda>fw. blob_count (blob_index E) (fst fw) > 0) affinity;
          fallback = map (\<lambda>fw. (fst fw, 2)) (filter (\<lambda>fw. fst fw \<noteq> primary) (family_weights E))
      in if available = [] \<and> fallback = [] then ([], g)
         else let pool = (if available = [] then fallback else available) in
              (case choice [1, 1, 2] g of (cnt, g1) \<Rightarrow>
                 pick_secondaries_loop (min cnt (length pool)) pool g1))"

definition pick_header_type :: "string \<Rightarrow> rng \<Rightarrow> string \<times> rng" where
  "pick_header_type fam g =
     (case map_of ISA_FAMILIES fam of
        None \<Rightarrow> (''bare'', g)
      | Some family_info \<Rightarrow>
          if header_types family_info = [] then (''bare'', g)
          else choice (header_types family_info) g)"

definition pick_trailer_type :: "rng \<Rightarrow> string \<times> rng" where
  "pick_trailer_type g = weighted_choice TRAILER_WEIGHTS g"

text \<open>\<open>_pick_total_size\<close>. \<open>math.log2\<close> raises \<open>ValueError\<close> on an argument that is not
  positive. The float computation \<open>2 ** rng.uniform(log_min, log_max)\<close> is not modelled:
  the next outcome of the generator stands for its value.
  \<^item> With both bounds at \<open>2^1024\<close> or more, both logarithms are at least \<open>1024.0\<close>, so is
    \<open>log_size\<close>, and \<open>2 ** log_size\<close> raises \<open>OverflowError\<close>.
  \<^item> With both bounds at most \<open>2^1023\<close>, both logarithms are at most \<open>1023.0\<close>, so is
    \<open>log_size\<close>, and the power is a float: the code returns, and any natural number is
    admitted for \<open>int(2 ** log_size)\<close>.
  \<^item> Otherwise the outcome decides: one of \<open>2^1024\<close> or more stands for a power outside
    the range of the floats, where the code raises \<open>OverflowError\<close>, and a smaller one is
    the integer \<open>int(2 ** log_size)\<close>.\<close>

definition pick_total_size :: "FirmwareGenConfig \<Rightarrow> rng \<Rightarrow> py_error + (int \<times> rng)" where
  "pick_total_size cfg g =
     (if min_size cfg \<le> 0 \<or> max_size cfg \<le> 0 then Inl ValueError
      else (case draw g of (sz, g') \<Rightarrow>
        if 2 ^ 1024 \<le> min (min_size cfg) (max_size cfg) then Inl OverflowError
        else if max (min_size cfg) (max_size cfg) \<le> 2 ^ 1023
        then Inr (align_up (int sz) 256, g')
        else if int sz < 2 ^ 1024 then Inr (align_up (int sz) 256, g')
        else Inl OverflowError))"

text \<open>\<open>f"0x{pattern:02X}"\<close>.\<close>

definition hex_digit_upper :: "nat \<Rightarrow> char" where
  "hex_digit_upper n = (if n < 10 then char_of (48 + n) else char_of (55 + n))"

definition fmt_0x02X :: "int \<Rightarrow> string" where
  "fmt_0x02X v = ''0x'' @ [hex_digit_upper (nat v div 16), hex_digit_upper (nat v mod 16)]"

definition pick_non_code_section ::
  "rng \<Rightarrow> int \<Rightarrow> (SectionType \<times> int \<times> (string \<times> json) list) \<times> rng" where
  "pick_non_code_section g max_sz =
     (case weighted_choice NON_CODE_WEIGHTS g of (sec_type, g1) \<Rightarrow>
      if sec_type = PADDING then
        (let pad_max = max 16 (min (min max_sz 65536) (max 64 (max_sz div 10))) in
         case randint 16 pad_max g1 of (sz, g2) \<Rightarrow>
         case choice [0xFF, 0x00, 0xAA, 0xDE] g2 of (pattern, g3) \<Rightarrow>
           ((sec_type, sz, [(''pattern'', JStr (fmt_0x02X pattern)),
                            (''fill_byte'', JInt pattern)]), g3))
      else if sec_type = STRING_TABLE then
        (let hi = max 64 (min 4096 max_sz) in
         case randint 64 hi g1 of (sz, g2) \<Rightarrow>
           ((sec_type, sz, [(''source'', JStr ''generated'')]), g2))
      else if sec_type = FILESYSTEM then
        (let hi = max 512 (min 65536 max_sz) in
         case randint 512 hi g1 of (sz, g2) \<Rightarrow>
         case choice [''squashfs'', ''jffs2'', ''cramfs'', ''romfs''] g2 of (fs_type, g3) \<Rightarrow>
           ((sec_type, sz, [(''fs_type'', JStr fs_type)]), g3))
      else if sec_type = RANDOM then
        (let hi = max 32 (min 8192 max_sz) in
         case randint 32 hi g1 of (sz, g2) \<Rightarrow>
           ((sec_type, sz, [(''source'', JStr ''random'')]), g2))
      else if sec_type = RODATA then
        (let hi = max 64 (min 16384 max_sz) in
         case randint 64 hi g1 of (sz, g2) \<Rightarrow>
           ((sec_type, sz, [(''source'', JStr ''generated'')]), g2))
      else
        (let hi = max 16 (min 1024 max_sz) in
         case randint 16 hi g1 of (sz, g2) \<Rightarrow> ((sec_type, sz, []), g2)))"

subsection \<open>\<open>generate_layout\<close>\<close>

definition HEADER_SIZES :: "(string \<times> int) list" where
  "HEADER_SIZES = [(''vector_table_cortexm'', 64), (''vector_table_arm'', 32),
     (''boot_vector_mips'', 32), (''avr_vector_table'', 128), (''msp430_vector_table'', 32),
     (''uboot'', 64), (''android_boot'', 2048), (''tplink'', 512), (''mediatek'', 1024),
     (''qualcomm_mbn'', 40), (''bios_boot'', 512), (''uefi_stub'', 512), (''opensbi_stub'', 48),
     (''bare'', 0)]"

text \<open>The local variables the two loops of \<open>generate_layout\<close> change.\<close>

record layout_state =
  ls_sections :: "SectionSpec list"
  ls_cursor :: int
  ls_code_remaining :: int
  ls_noncode_budget :: int
  ls_family_queue :: "string list"
  ls_rng :: rng

datatype 'a step = Break 'a | Continue 'a

definition ff_padding :: "(string \<times> json) list" where
  "ff_padding = [(''pattern'', JStr ''0xFF''), (''fill_byte'', JInt 0xFF)]"

text \<open>Step 5c, "Section size: blob size, possibly repeated/truncated".\<close>

definition code_section_size :: "int \<Rightarrow> int \<Rightarrow> int \<Rightarrow> int \<Rightarrow> int" where
  "code_section_size blob_size multiplier code_remaining align =
     (let section_size0 = min (blob_size * multiplier) code_remaining;
          section_size1 = max section_size0 (min blob_size code_remaining);
          section_size2 = align_up section_size1 align
      in if section_size2 > code_remaining then code_remaining else section_size2)"

text \<open>Step 5c, "Align cursor": a padding section closes the gap to the next boundary.\<close>

definition align_cursor :: "int \<Rightarrow> layout_state \<Rightarrow> layout_state" where
  "align_cursor align st =
     (let aligned_cursor = align_up (ls_cursor st) align in
      if aligned_cursor > ls_cursor st
      then st\<lparr>ls_sections := ls_sections st @
                 [\<lparr>offset = ls_cursor st, size_s = aligned_cursor - ls_cursor st,
                   section_type = PADDING, alignment = 1, isa_family = None,
                   fill_params = ff_padding\<rparr>],
               ls_cursor := aligned_cursor\<rparr>
      else st)"

text \<open>Step 5c, the code section itself, at the cursor.\<close>

definition append_code :: "string \<Rightarrow> int \<Rightarrow> BlobInfo \<Rightarrow> int \<Rightarrow> layout_state \<Rightarrow> layout_state"
  where
  "append_code fam align blob section_size st =
     st\<lparr>ls_sections := ls_sections st @
            [\<lparr>offset = ls_cursor st, size_s = section_size, section_type = CODE,
              alignment = align, isa_family = Some fam,
              fill_params = [(''blob_family'', JStr fam),
                             (''blob_triple'', JStr (triple blob)),
                             (''blob_program'', JStr (program blob)),
                             (''blob_config'', JStr (BlobInfo.config blob))]\<rparr>],
        ls_cursor := ls_cursor st + section_size,
        ls_code_remaining := ls_code_remaining st - section_size\<rparr>"

text \<open>Step 5c, "Occasionally insert non-code between code sections".
  \<open>rng.random() < 0.3\<close> holds exactly for the draws \<open>k < 2702159776422298\<close>; the generator
  is drawn from before \<open>noncode_budget >= 64\<close> is tested, as Python's \<open>and\<close> does.\<close>

definition maybe_noncode :: "layout_state \<Rightarrow> layout_state" where
  "maybe_noncode st =
     (case random53 (ls_rng st) of (k, g3) \<Rightarrow>
        if k < 2702159776422298 \<and> ls_noncode_budget st \<ge> 64 then
          (case pick_non_code_section g3 (ls_noncode_budget st) of
             ((nc_type, nc_size0, nc_params), g4) \<Rightarrow>
               let nc_size = min nc_size0 (ls_noncode_budget st) in
               st\<lparr>ls_sections := ls_sections st @
                      [\<lparr>offset = ls_cursor st, size_s = nc_size, section_type = nc_type,
                        alignment = 1, isa_family = None, fill_params = nc_params\<rparr>],
                  ls_cursor := ls_cursor st + nc_size,
                  ls_noncode_budget := ls_noncode_budget st - nc_size,
                  ls_rng := g4\<rparr>)
        else st\<lparr>ls_rng := g3\<rparr>)"

text \<open>One iteration of \<open>while code_remaining >= 64\<close> (step 5c).\<close>

definition code_step :: "BlobIndex \<Rightarrow> layout_state \<Rightarrow> py_error + layout_state step" where
  "code_step idx st =
     (case ls_family_queue st of
        [] \<Rightarrow> Inl IndexError
      | fam # queue_tl \<Rightarrow>
          (let family_queue = queue_tl @ [fam];
               align = (case map_of ISA_FAMILIES fam of
                          Some fam_info \<Rightarrow> IsaFamily.alignment fam_info | None \<Rightarrow> 4) in
           case get_random_blob idx fam (ls_rng st) of
             (None, g1) \<Rightarrow>
               (let family_queue' = filter (\<lambda>f. f \<noteq> fam) family_queue in
                if family_queue' = []
                then Inr (Break (st\<lparr>ls_family_queue := family_queue', ls_rng := g1\<rparr>))
                else Inr (Continue (st\<lparr>ls_family_queue := family_queue', ls_rng := g1\<rparr>)))
           | (Some blob, g1) \<Rightarrow>
               (case choice [1, 1, 1, 2, 3] g1 of (multiplier, g2) \<Rightarrow>
                  (let section_size = code_section_size (size_bytes blob) multiplier
                                        (ls_code_remaining st) align in
                   if section_size < 4
                   then Inr (Break (st\<lparr>ls_family_queue := family_queue, ls_rng := g2\<rparr>))
                   else Inr (Continue (maybe_noncode
                          (append_code fam align blob section_size
                            (align_cursor align
                              (st\<lparr>ls_family_queue := family_queue, ls_rng := g2\<rparr>)))))))))"

lemma maybe_noncode_same [simp]:
  "ls_code_remaining (maybe_noncode st) = ls_code_remaining st"
  "ls_family_queue (maybe_noncode st) = ls_family_queue st"
  by (simp_all add: maybe_noncode_def Let_def split: prod.splits)

lemma align_cursor_same [simp]:
  "ls_code_remaining (align_cursor a st) = ls_code_remaining st"
  "ls_family_queue (align_cursor a st) = ls_family_queue st"
  "ls_noncode_budget (align_cursor a st) = ls_noncode_budget st"
  "ls_rng (align_cursor a st) = ls_rng st"
  by (simp_all add: align_cursor_def Let_def)

lemma append_code_same [simp]:
  "ls_code_remaining (append_code fam a b sz st) = ls_code_remaining st - sz"
  "ls_family_queue (append_code fam a b sz st) = ls_family_queue st"
  "ls_noncode_budget (append_code fam a b sz st) = ls_noncode_budget st"
  "ls_rng (append_code fam a b sz st) = ls_rng st"
  by (simp_all add: append_code_def)

lemma code_step_decreases:
  assumes "code_step idx st = Inr (Continue st')" and "64 \<le> ls_code_remaining st"
  shows "nat (ls_code_remaining st') < nat (ls_code_remaining st)
       \<or> (ls_code_remaining st' = ls_code_remaining st
          \<and> length (ls_family_queue st') < length (ls_family_queue st))"
proof (cases "ls_family_queue st")
  case Nil
  with assms show ?thesis by (simp add: code_step_def)
next
  case (Cons fam queue_tl)
  obtain b g1 where gb: "get_random_blob idx fam (ls_rng st) = (b, g1)"
    by (cases "get_random_blob idx fam (ls_rng st)")
  show ?thesis
  proof (cases b)
    case None
    have "length (filter (\<lambda>f. f \<noteq> fam) (queue_tl @ [fam])) < length (fam # queue_tl)"
      by (simp add: less_Suc_eq_le)
    with assms Cons gb None show ?thesis
      by (auto simp: code_step_def Let_def split: if_splits)
  next
    case (Some blob)
    obtain m g2 where ch: "choice [1, 1, 1, 2, 3 :: int] g1 = (m, g2)"
      by (cases "choice [1, 1, 1, 2, 3 :: int] g1")
    from assms Cons gb Some ch show ?thesis
      by (auto simp: code_step_def Let_def split: if_splits)
  qed
qed

function code_loop :: "BlobIndex \<Rightarrow> layout_state \<Rightarrow> py_error + layout_state" where
  "code_loop idx st =
     (if ls_code_remaining st \<ge> 64 then
        (case code_step idx st of
           Inl e \<Rightarrow> Inl e
         | Inr (Break st') \<Rightarrow> Inr st'
         | Inr (Continue st') \<Rightarrow> code_loop idx st')
      else Inr st)"
  by pat_completeness auto
termination
proof (relation "measures [\<lambda>p. nat (ls_code_remaining (snd p)),
                           \<lambda>p. length (ls_family_queue (snd p))]")
  show "wf (measures [\<lambda>p. nat (ls_code_remaining (snd p)),
                      \<lambda>p. length (ls_family_queue (snd p))])"
    by simp
next
  fix idx :: BlobIndex and st :: layout_state and x2 :: "layout_state step" and st' :: layout_state
  assume "64 \<le> ls_code_remaining st" and "code_step idx st = Inr x2" and "x2 = Continue st'"
  then show "((idx, st'), (idx, st)) \<in> measures [\<lambda>p. nat (ls_code_remaining (snd p)),
                                                   \<lambda>p. length (ls_family_queue (snd p))]"
    using code_step_decreases [of idx st st'] by auto
qed

declare code_loop.simps [simp del]

text \<open>One iteration of the loop that fills the remaining space (step 5d); the first
  argument is \<open>total_size - trailer_size\<close>.\<close>

definition fill_step :: "int \<Rightarrow> layout_state \<Rightarrow> layout_state step" where
  "fill_step limit st =
     (case pick_non_code_section (ls_rng st) (ls_noncode_budget st) of
        ((nc_type, nc_size0, nc_params), g1) \<Rightarrow>
          (let nc_size = min (min nc_size0 (ls_noncode_budget st)) (limit - ls_cursor st) in
           if nc_size < 16 then Break (st\<lparr>ls_rng := g1\<rparr>)
           else Continue (st\<lparr>ls_sections := ls_sections st @
                    [\<lparr>offset = ls_cursor st, size_s = nc_size, section_type = nc_type,
                      alignment = 1, isa_family = None, fill_params = nc_params\<rparr>],
                  ls_cursor := ls_cursor st + nc_size,
                  ls_noncode_budget := ls_noncode_budget st - nc_size,
                  ls_rng := g1\<rparr>)))"

function fill_loop :: "int \<Rightarrow> layout_state \<Rightarrow> layout_state" where
  "fill_loop limit st =
     (if ls_noncode_budget st \<ge> 32 \<and> ls_cursor st < limit then
        (case fill_step limit st of
           Break st' \<Rightarrow> st'
         | Continue st' \<Rightarrow> fill_loop limit st')
      else st)"
  by pat_completeness auto
termination
proof (relation "measure (\<lambda>p. nat (ls_noncode_budget (snd p)))")
  show "wf (measure (\<lambda>p. nat (ls_noncode_budget (snd p))))" by simp
next
  fix limit :: int and st st' :: layout_state
  assume "32 \<le> ls_noncode_budget st \<and> ls_cursor st < limit"
    and "fill_step limit st = Continue st'"
  then show "((limit, st'), (limit, st)) \<in> measure (\<lambda>p. nat (ls_noncode_budget (snd p)))"
    by (auto simp: fill_step_def Let_def split: prod.splits if_splits)
qed

declare fill_loop.simps [simp del]

text \<open>Step 2 of \<open>generate_layout\<close>, "Decide multi-ISA". \<open>rng.random() <
  multi_isa_probability\<close> holds for the draws below the threshold the configuration keeps.\<close>

definition decide_multi_isa ::
  "LayoutEngine \<Rightarrow> string \<Rightarrow> string list option \<Rightarrow> rng \<Rightarrow> string list \<times> rng" where
  "decide_multi_isa E primary forced_secondaries g =
     (case forced_secondaries of
        Some forced \<Rightarrow> ([primary] @ forced, g)
      | None \<Rightarrow>
          (case random53 g of (k, g2) \<Rightarrow>
             if k < multi_isa_probability (config E)
             then (case pick_secondary_isas E primary g2 of
                     (secondaries, g3) \<Rightarrow> ([primary] @ secondaries, g3))
             else ([primary], g2)))"

text \<open>Steps 5e and 5f: the final padding that closes the gap before the trailer, and the
  trailer placeholder.\<close>

definition close_gap :: "int \<Rightarrow> int \<Rightarrow> layout_state \<Rightarrow> layout_state" where
  "close_gap total_sz trailer_size st =
     (let gap = total_sz - trailer_size - ls_cursor st in
      if gap > 0
      then st\<lparr>ls_sections := ls_sections st @
                 [\<lparr>offset = ls_cursor st, size_s = gap, section_type = PADDING, alignment = 1,
                   isa_family = None, fill_params = ff_padding\<rparr>],
               ls_cursor := ls_cursor st + gap\<rparr>
      else st)"

definition append_trailer :: "string \<Rightarrow> int \<Rightarrow> layout_state \<Rightarrow> SectionSpec list" where
  "append_trailer ttype trailer_size st =
     (if trailer_size > 0
      then ls_sections st @
             [\<lparr>offset = ls_cursor st, size_s = trailer_size, section_type = TRAILER,
               alignment = 1, isa_family = None,
               fill_params = [(''trailer_type'', JStr ttype)]\<rparr>]
      else ls_sections st)"

text \<open>Step 5 of \<open>generate_layout\<close>, "Build section list", from the header placeholder to
  the trailer; it returns the section list and the total size, which step 5b may have
  raised. \<open>int(usable_size * rng.uniform(0.30, 0.70))\<close> is computed in exact arithmetic:
  with \<open>rng.random() = k / 2^53\<close> it is the floor of
  \<open>usable_size * (3 * 2^53 + 4 * k) / (10 * 2^53)\<close>.\<close>

definition build_sections ::
  "BlobIndex \<Rightarrow> string list \<Rightarrow> string \<Rightarrow> string \<Rightarrow> int \<Rightarrow> int \<Rightarrow> rng
     \<Rightarrow> py_error + (SectionSpec list \<times> int)" where
  "build_sections idx all_families htype ttype trailer_size total_size0 g =
     (let header_size = (case map_of HEADER_SIZES htype of None \<Rightarrow> 64 | Some h \<Rightarrow> h);
          sections0 = (if header_size > 0
             then [\<lparr>offset = 0, size_s = header_size, section_type = HEADER, alignment = 1,
                    isa_family = None, fill_params = [(''header_type'', JStr htype)]\<rparr>]
             else []);
          cursor0 = (if header_size > 0 then header_size else 0);
          usable_size0 = total_size0 - cursor0 - trailer_size;
          total_sz = (if usable_size0 < 64 then cursor0 + trailer_size + 256 else total_size0);
          usable_size = (if usable_size0 < 64 then 256 else usable_size0) in
      case random53 g of (kf, g1) \<Rightarrow>
        (let code_budget = (usable_size * (3 * 9007199254740992 + 4 * int kf))
                             div (10 * 9007199254740992);
             noncode_budget = usable_size - code_budget in
         case code_loop idx
                \<lparr>ls_sections = sections0, ls_cursor = cursor0, ls_code_remaining = code_budget,
                 ls_noncode_budget = noncode_budget, ls_family_queue = all_families,
                 ls_rng = g1\<rparr> of
           Inl e \<Rightarrow> Inl e
         | Inr st1 \<Rightarrow>
             Inr (append_trailer ttype trailer_size
                    (close_gap total_sz trailer_size (fill_loop (total_sz - trailer_size) st1)),
                  total_sz)))"

text \<open>\<open>LayoutEngine.generate_layout(rng, seq, primary_isa, forced_secondaries)\<close>.\<close>

definition generate_layout ::
  "LayoutEngine \<Rightarrow> rng \<Rightarrow> int \<Rightarrow> string option \<Rightarrow> string list option \<Rightarrow> py_error + ImageLayout"
  where
  "generate_layout E g seq primary_opt forced_secondaries =
     (case (case primary_opt of None \<Rightarrow> pick_primary_isa E g | Some p \<Rightarrow> (p, g)) of
        (primary, g1) \<Rightarrow>
          (case map_of ISA_FAMILIES primary of
             None \<Rightarrow> Inl KeyError
           | Some primary_family \<Rightarrow>
               (case decide_multi_isa E primary forced_secondaries g1 of
                  (all_families, g4) \<Rightarrow>
                    (case pick_header_type primary g4 of (htype, g5) \<Rightarrow>
                       (case pick_trailer_type g5 of (ttype, g6) \<Rightarrow>
                          (case map_of TRAILER_SIZES ttype of
                             None \<Rightarrow> Inl KeyError
                           | Some trailer_size \<Rightarrow>
                               (case pick_total_size (config E) g6 of
                                  Inl e \<Rightarrow> Inl e
                                | Inr (total_size0, g7) \<Rightarrow>
                                    (case build_sections (blob_index E) all_families htype
                                            ttype trailer_size total_size0 g7 of
                                       Inl e \<Rightarrow> Inl e
                                     | Inr (secs, total_sz) \<Rightarrow>
                                         Inr \<lparr>image_id = ''fw_''
                                                @ str_int (FirmwareGenConfig.seed (config E))
                                                @ ''_'' @ fmt_06d seq,
                                              total_size = total_sz, primary_isa = primary,
                                              header_type = htype, trailer_type = ttype,
                                              sections = secs,
                                              all_isa_families = all_families,
                                              seed = FirmwareGenConfig.seed (config E)
                                                     + seq\<rparr>))))))))"

subsection \<open>\<open>generate_batch\<close>\<close>

text \<open>Dictionaries keyed by strings, in insertion order: \<open>d[k] += v\<close> on a key that is
  present, \<open>d[k] = v\<close>, and \<open>d.setdefault(k, v)\<close>.\<close>

definition dict_add :: "(string \<times> int) list \<Rightarrow> string \<Rightarrow> int \<Rightarrow> (string \<times> int) list" where
  "dict_add d k v = map (\<lambda>kv. if fst kv = k then (fst kv, snd kv + v) else kv) d"

fun dict_set :: "(string \<times> 'a) list \<Rightarrow> string \<Rightarrow> 'a \<Rightarrow> (string \<times> 'a) list" where
  "dict_set [] k v = [(k, v)]"
| "dict_set ((k', x) # rest) k v =
     (if k' = k then (k', v) # rest else (k', x) # dict_set rest k v)"

definition setdefault :: "(string \<times> 'a) list \<Rightarrow> string \<Rightarrow> 'a \<Rightarrow> (string \<times> 'a) list" where
  "setdefault d k v = (case map_of d k of None \<Rightarrow> d @ [(k, v)] | Some x \<Rightarrow> d)"

text \<open>Phase 1, the quotas. \<open>int(remainder * weight / total_weight)\<close> is computed in exact
  arithmetic. \<open>sorted(..., key=weight, reverse=True)\<close> is stable: families of equal weight
  keep their order.\<close>

definition phase1_quotas :: "(string \<times> nat) list \<Rightarrow> int \<Rightarrow> (string \<times> int) list" where
  "phase1_quotas fw cnt =
     (let fams = map fst fw;
          num_families = int (length fams);
          base_per = max 1 (cnt div num_families);
          quotas0 = map (\<lambda>fam. (fam, base_per)) fams;
          allocated0 = base_per * num_families;
          remainder = cnt - allocated0 in
      if remainder > 0 then
        (let total_weight = sum_list (map snd fw);
             qa = fold (\<lambda>fam_weight qa.
                          (let extra = (remainder * int (snd fam_weight)) div int total_weight
                           in (dict_add (fst qa) (fst fam_weight) extra, snd qa + extra)))
                       fw (quotas0, allocated0);
             leftover = cnt - snd qa;
             sorted_fams = rev (sort_key snd (rev fw)) in
         fold (\<lambda>i q. dict_add q (fst (sorted_fams ! (i mod length sorted_fams))) 1)
              [0..<nat leftover] (fst qa))
      else quotas0)"

text \<open>The inner loops of both phases: \<open>n\<close> times, create \<open>Random(master_seed + seq)\<close>,
  generate one layout with it, append it and increment \<open>seq\<close>. \<open>Random\<close> is the
  parameter \<open>R\<close>, from seeds to generators. An exception leaves \<open>generate_batch\<close>.\<close>

fun gen_repeat ::
  "LayoutEngine \<Rightarrow> (int \<Rightarrow> rng) \<Rightarrow> int \<Rightarrow> string \<Rightarrow> string list option \<Rightarrow> nat \<Rightarrow> int
     \<Rightarrow> py_error + (ImageLayout list \<times> int)" where
  "gen_repeat E R master_seed primary forced 0 seq = Inr ([], seq)"
| "gen_repeat E R master_seed primary forced (Suc n) seq =
     (case generate_layout E (R (master_seed + seq)) seq (Some primary) forced of
        Inl e \<Rightarrow> Inl e
      | Inr layout \<Rightarrow>
          (case gen_repeat E R master_seed primary forced n (seq + 1) of
             Inl e \<Rightarrow> Inl e
           | Inr (rest, seq') \<Rightarrow> Inr (layout # rest, seq')))"

fun phase1 ::
  "LayoutEngine \<Rightarrow> (int \<Rightarrow> rng) \<Rightarrow> int \<Rightarrow> (string \<times> int) list \<Rightarrow> string list \<Rightarrow> int
     \<Rightarrow> py_error + (ImageLayout list \<times> int)" where
  "phase1 E R master_seed quotas [] seq = Inr ([], seq)"
| "phase1 E R master_seed quotas (fam # fams) seq =
     (case map_of quotas fam of
        None \<Rightarrow> Inl KeyError
      | Some quota \<Rightarrow>
          (case gen_repeat E R master_seed fam None (nat quota) seq of
             Inl e \<Rightarrow> Inl e
           | Inr (layouts, seq1) \<Rightarrow>
               (case phase1 E R master_seed quotas fams seq1 of
                  Inl e \<Rightarrow> Inl e
                | Inr (rest, seq2) \<Rightarrow> Inr (layouts @ rest, seq2))))"

text \<open>Phase 2: count the images of each label and remember a primary ISA for it.\<close>

fun count_combos ::
  "ImageLayout list \<Rightarrow> (string \<times> int) list \<times> (string \<times> string) list
     \<Rightarrow> (string \<times> int) list \<times> (string \<times> string) list" where
  "count_combos [] cc = cc"
| "count_combos (layout # rest) cc =
     (let label = isa_label layout;
          combo_counts = fst cc; combo_primary = snd cc in
      count_combos rest
        (dict_set combo_counts label
           ((case map_of combo_counts label of None \<Rightarrow> 0 | Some c \<Rightarrow> c) + 1),
         setdefault combo_primary label (primary_isa layout)))"

text \<open>Phase 2: the loop \<open>for label in sorted(combo_counts)\<close>, over the labels left.\<close>

fun phase2 ::
  "LayoutEngine \<Rightarrow> (int \<Rightarrow> rng) \<Rightarrow> int \<Rightarrow> (string \<times> int) list \<Rightarrow> (string \<times> string) list
     \<Rightarrow> string list \<Rightarrow> int \<Rightarrow> py_error + (ImageLayout list \<times> int)" where
  "phase2 E R master_seed combo_counts combo_primary [] seq = Inr ([], seq)"
| "phase2 E R master_seed combo_counts combo_primary (label # labels) seq =
     (case map_of combo_counts label of
        None \<Rightarrow> Inl KeyError
      | Some c \<Rightarrow>
          (let needed = min_images_per_combo (config E) - c in
           if needed \<le> 0
           then phase2 E R master_seed combo_counts combo_primary labels seq
           else
             (case map_of combo_primary label of
                None \<Rightarrow> Inl KeyError
              | Some primary \<Rightarrow>
                  (let combo_families = split_on CHR ''+'' label;
                       secondaries = filter (\<lambda>f. f \<noteq> primary) combo_families in
                   case gen_repeat E R master_seed primary (Some secondaries) (nat needed) seq of
                     Inl e \<Rightarrow> Inl e
                   | Inr (layouts, seq1) \<Rightarrow>
                       (case phase2 E R master_seed combo_counts combo_primary labels seq1 of
                          Inl e \<Rightarrow> Inl e
                        | Inr (rest, seq2) \<Rightarrow> Inr (layouts @ rest, seq2))))))"

text \<open>\<open>Random.shuffle\<close>: for \<open>i\<close> from \<open>len(x) - 1\<close> down to 1, swap \<open>x[i]\<close> with
  \<open>x[_randbelow(i + 1)]\<close>. The first argument is the index \<open>i\<close>.\<close>

fun shuffle_from :: "nat \<Rightarrow> 'a list \<Rightarrow> rng \<Rightarrow> 'a list" where
  "shuffle_from 0 xs g = xs"
| "shuffle_from (Suc i) xs g =
     (case randbelow (Suc (Suc i)) g of
        (j, g') \<Rightarrow> shuffle_from i (xs[Suc i := xs ! j, j := xs ! Suc i]) g')"

definition shuffle :: "'a list \<Rightarrow> rng \<Rightarrow> 'a list" where
  "shuffle xs g = shuffle_from (length xs - 1) xs g"

text \<open>\<open>LayoutEngine.generate_batch(count, master_seed)\<close>. An engine always has a family
  (\<open>__init__\<close> raises otherwise); on a record without one \<open>count // num_families\<close> is the
  division by zero it would be.\<close>

definition generate_batch ::
  "LayoutEngine \<Rightarrow> (int \<Rightarrow> rng) \<Rightarrow> int \<Rightarrow> int \<Rightarrow> py_error + ImageLayout list" where
  "generate_batch E R cnt master_seed =
     (let fams = map fst (family_weights E) in
      if fams = [] then Inl ZeroDivisionError
      else
        (case phase1 E R master_seed (phase1_quotas (family_weights E) cnt) fams 0 of
           Inl e \<Rightarrow> Inl e
         | Inr (layouts1, seq1) \<Rightarrow>
             (let cc = count_combos layouts1 ([], []) in
              case phase2 E R master_seed (fst cc) (snd cc) (sort (map fst (fst cc))) seq1 of
                Inl e \<Rightarrow> Inl e
              | Inr (layouts2, seq2) \<Rightarrow>
                  Inr (shuffle (layouts1 @ layouts2) (R master_seed)))))"

section \<open>The assembler (\<open>firmware/build_firmware.py\<close>)\<close>





definition get_trailer_size :: "string \<Rightarrow> int" where
  "get_trailer_size ttype =
     (case map_of [(''crc32'', 4), (''md5'', 16), (''sha256'', 32), (''none'', 0)] ttype of
        None \<Rightarrow> 0 | Some n \<Rightarrow> n)"









subsection \<open>\<open>generate_single_image\<close>\<close>




















section \<open>Properties of layouts\<close>

text \<open>The sections are contiguous from the position \<open>c\<close>: each one starts where the one
  before it ends (the first at \<open>c\<close>) and has a positive size.\<close>

fun chain :: "int \<Rightarrow> SectionSpec list \<Rightarrow> bool" where
  "chain c [] = True"
| "chain c (s # ss) = (offset s = c \<and> 0 < size_s s \<and> chain (c + size_s s) ss)"

text \<open>Where the last of them ends.\<close>

definition end_of :: "int \<Rightarrow> SectionSpec list \<Rightarrow> int" where
  "end_of c ss = c + sum_list (map size_s ss)"

text \<open>The sections tile \<open>[0, total_size)\<close>: contiguous from 0, and the last one ends at
  \<open>total_size\<close>.\<close>

definition tiles :: "ImageLayout \<Rightarrow> bool" where
  "tiles l = (sections l \<noteq> [] \<and> chain 0 (sections l) \<and> end_of 0 (sections l) = total_size l)"

text \<open>The alignment \<open>generate_layout\<close> uses for a family: the database's, or 4 for a
  family the database does not know.\<close>

definition family_alignment :: "string \<Rightarrow> int" where
  "family_alignment fam =
     (case map_of ISA_FAMILIES fam of Some fam_info \<Rightarrow> IsaFamily.alignment fam_info | None \<Rightarrow> 4)"

text \<open>What every section the layout engine emits before the trailer satisfies, for the
  families \<open>fams\<close> of the image: a code section carries one of the families, the alignment
  that family has, and an offset that is a multiple of it; only a section at offset 0 is a
  header; generated content (string table, file system, random, read-only data) has at
  least 16 bytes.\<close>

definition sec_ok :: "string list \<Rightarrow> SectionSpec \<Rightarrow> bool" where
  "sec_ok fams s =
     (case section_type s of
        CODE \<Rightarrow> (case isa_family s of
                   None \<Rightarrow> False
                 | Some fam \<Rightarrow> fam \<in> set fams \<and> alignment s = family_alignment fam
                               \<and> offset s mod family_alignment fam = 0)
      | HEADER \<Rightarrow> offset s = 0
      | TRAILER \<Rightarrow> False
      | PADDING \<Rightarrow> True
      | other \<Rightarrow> 16 \<le> size_s s)"

text \<open>The invariant of both loops of \<open>generate_layout\<close>.\<close>

definition layout_inv :: "string list \<Rightarrow> layout_state \<Rightarrow> bool" where
  "layout_inv fams st =
     (chain 0 (ls_sections st) \<and> ls_cursor st = end_of 0 (ls_sections st)
      \<and> list_all (sec_ok fams) (ls_sections st) \<and> set (ls_family_queue st) \<subseteq> set fams)"

text \<open>The size \<open>generate_layout\<close> reserves for a header type, and the placeholder
  sections it emits for the header and the trailer.\<close>

definition header_size_of :: "string \<Rightarrow> int" where
  "header_size_of htype = (case map_of HEADER_SIZES htype of None \<Rightarrow> 64 | Some h \<Rightarrow> h)"

definition header_section :: "string \<Rightarrow> SectionSpec" where
  "header_section htype =
     \<lparr>offset = 0, size_s = header_size_of htype, section_type = HEADER, alignment = 1,
      isa_family = None, fill_params = [(''header_type'', JStr htype)]\<rparr>"

definition trailer_section :: "string \<Rightarrow> int \<Rightarrow> int \<Rightarrow> SectionSpec" where
  "trailer_section ttype off ts =
     \<lparr>offset = off, size_s = ts, section_type = TRAILER, alignment = 1, isa_family = None,
      fill_params = [(''trailer_type'', JStr ttype)]\<rparr>"

text \<open>The layout \<open>l\<close> is one that \<open>generate_layout\<close> returns for the engine \<open>E\<close> when
  called with the primary ISA \<open>p\<close> and the forced secondaries \<open>f\<close>, for some generator
  and sequence number.\<close>

definition made_by :: "LayoutEngine \<Rightarrow> string \<Rightarrow> string list option \<Rightarrow> ImageLayout \<Rightarrow> bool" where
  "made_by E p f l = (\<exists>g seq. generate_layout E g seq (Some p) f = Inr l)"

text \<open>The families of a layout are well-formed for a label: no name contains the
  separator \<open>+\<close>, and the primary ISA, which comes first, is not among the secondaries.\<close>

definition good_families :: "ImageLayout \<Rightarrow> bool" where
  "good_families l =
     ((\<forall>f\<in>set (all_isa_families l). CHR ''+'' \<notin> set f)
      \<and> (\<exists>rest. all_isa_families l = primary_isa l # rest \<and> primary_isa l \<notin> set rest))"

text \<open>An engine as \<open>LayoutEngine.__init__\<close> builds it, from an index that is a
  dictionary (no key twice).\<close>

definition engine_of :: "BlobIndex \<Rightarrow> FirmwareGenConfig \<Rightarrow> LayoutEngine \<Rightarrow> bool" where
  "engine_of idx cfg E = (distinct (map fst idx) \<and> new_LayoutEngine idx cfg = Inr E)"

text \<open>The size bounds of a configuration with which \<open>_pick_total_size\<close> returns: both
  positive and at most \<open>2^1023\<close>.\<close>

definition sizes_in_range :: "FirmwareGenConfig \<Rightarrow> bool" where
  "sizes_in_range cfg =
     (0 < min_size cfg \<and> min_size cfg \<le> 2 ^ 1023 \<and> 0 < max_size cfg \<and> max_size cfg \<le> 2 ^ 1023)"

text \<open>The quotas of phase 1 are a dictionary over the families, each at least \<open>b\<close>.\<close>

definition quotas_ok :: "string list \<Rightarrow> int \<Rightarrow> (string \<times> int) list \<Rightarrow> bool" where
  "quotas_ok fams b q = (map fst q = fams \<and> list_all (\<lambda>kv. b \<le> snd kv) q)"

text \<open>What the counting loop of phase 2 has computed once it has seen the layouts
  \<open>seen\<close>: the number of layouts of each label, and for each label the primary ISA of
  one layout that carries it.\<close>

definition combos_inv ::
  "ImageLayout list \<Rightarrow> (string \<times> int) list \<times> (string \<times> string) list \<Rightarrow> bool" where
  "combos_inv seen acc =
     (\<forall>lab. if lab \<in> isa_label ` set seen
        then map_of (fst acc) lab = Some (int (length (filter (\<lambda>l. isa_label l = lab) seen)))
           \<and> (\<exists>l\<in>set seen. isa_label l = lab \<and> map_of (snd acc) lab = Some (primary_isa l))
        else map_of (fst acc) lab = None \<and> map_of (snd acc) lab = None)"

section \<open>An example installation\<close>

text \<open>An index with one blob of 100 bytes for each of \<open>arm32\<close> and \<open>thumb\<close>, a
  configuration, and the engine \<open>LayoutEngine(index, config)\<close> builds from them.\<close>

definition example_blob :: "string \<Rightarrow> string \<Rightarrow> BlobInfo" where
  "example_blob fam trip =
     \<lparr>path = [fam, trip, ''O2'', ''crc.bin''], family = fam, triple = trip,
      BlobInfo.config = ''O2'', program = ''crc'', size_bytes = 100\<rparr>"

definition example_index :: BlobIndex where
  "example_index =
     [(''arm32'', [example_blob ''arm32'' ''arm-unknown-linux-gnueabi'']),
      (''thumb'', [example_blob ''thumb'' ''thumbv7m-none-eabi''])]"

definition example_config :: FirmwareGenConfig where
  "example_config =
     \<lparr>FirmwareGenConfig.seed = 42, num_images = 1, min_size = 1024, max_size = 1024,
      multi_isa_probability = 2702159776422298, min_images_per_combo = 3\<rparr>"

definition example_engine :: LayoutEngine where
  "example_engine =
     \<lparr>blob_index = example_index, config = example_config,
      family_weights = [(''arm32'', 1), (''thumb'', 1)]\<rparr>"

text \<open>The outcomes of a generator with which the sections \<open>generate_layout\<close> lays out
  end past \<open>total_size\<close>, a code section of the example, and the layout.\<close>

definition overflow_draws :: rng where
  "overflow_draws = [0, 4503599627370496, 3, 8106479329266893, 1024, 4494592428115755,
                     0, 0, 0, 6755399441055744, 481, 0, 4, 4503599627370496,
                     0, 4, 4503599627370496]"

definition example_code :: "int \<Rightarrow> int \<Rightarrow> SectionSpec" where
  "example_code off sz =
     \<lparr>offset = off, size_s = sz, section_type = CODE, alignment = 4,
      isa_family = Some ''arm32'',
      fill_params = [(''blob_family'', JStr ''arm32''),
                     (''blob_triple'', JStr ''arm-unknown-linux-gnueabi''),
                     (''blob_program'', JStr ''crc''), (''blob_config'', JStr ''O2'')]\<rparr>"

definition overflow_sections :: "SectionSpec list" where
  "overflow_sections =
     [example_code 0 100,
      \<lparr>offset = 100, size_s = 513, section_type = RANDOM, alignment = 1, isa_family = None,
       fill_params = [(''source'', JStr ''random'')]\<rparr>,
      \<lparr>offset = 613, size_s = 3, section_type = PADDING, alignment = 1, isa_family = None,
       fill_params = ff_padding\<rparr>,
      example_code 616 300,
      example_code 916 111]"

definition overflow_layout :: ImageLayout where
  "overflow_layout =
     \<lparr>image_id = ''fw_42_000000'', total_size = 1024, primary_isa = ''arm32'',
      header_type = ''bare'', trailer_type = ''none'', sections = overflow_sections,
      all_isa_families = [''arm32''], seed = 42\<rparr>"

text \<open>A section that carries a family carries one with a blob in the index.\<close>

definition has_blobs :: "BlobIndex \<Rightarrow> SectionSpec \<Rightarrow> bool" where
  "has_blobs idx s = (case isa_family s of None \<Rightarrow> True | Some fam \<Rightarrow> get_blobs idx fam \<noteq> [])"

text \<open>The outcomes of a generator, and the layout \<open>generate_layout\<close> makes of them for
  the primary ISA \<open>arm32\<close> with the forced secondary \<open>aarch64\<close>, for which the example
  index has no blob.\<close>

definition forced_draws :: rng where
  "forced_draws = [3, 8106479329266893, 1024, 4494592428115755,
                   0, 0, 4503599627370496, 0, 4, 4503599627370496, 0, 4, 4503599627370496,
                   6755399441055744, 481]"

definition forced_sections :: "SectionSpec list" where
  "forced_sections =
     [example_code 0 100, example_code 100 300, example_code 400 111,
      \<lparr>offset = 511, size_s = 513, section_type = RANDOM, alignment = 1, isa_family = None,
       fill_params = [(''source'', JStr ''random'')]\<rparr>]"

definition forced_layout :: ImageLayout where
  "forced_layout =
     \<lparr>image_id = ''fw_42_000000'', total_size = 1024, primary_isa = ''arm32'',
      header_type = ''bare'', trailer_type = ''none'', sections = forced_sections,
      all_isa_families = [''arm32'', ''aarch64''], seed = 42\<rparr>"






section \<open>Verification: auxiliary facts\<close>

subsection \<open>Packing and reading back\<close>

lemma split_u32:
  "(v::int) mod 4294967296 =
     v mod 256 + 256 * ((v div 256) mod 256 + 256 * ((v div 65536) mod 256
       + 256 * ((v div 16777216) mod 256)))"
proof -
  have d: "v div 256 div 256 = v div 65536" "v div 65536 div 256 = v div 16777216"
    by (simp_all add: zdiv_zmult2_eq [symmetric])
  have a: "v mod 4294967296 = v mod 256 + 256 * ((v div 256) mod 16777216)"
    using zmod_zmult2_eq [of 16777216 v 256] by simp
  have b: "(v div 256) mod 16777216 = (v div 256) mod 256 + 256 * ((v div 65536) mod 65536)"
    using zmod_zmult2_eq [of 65536 "v div 256" 256] by (simp add: d)
  have c: "(v div 65536) mod 65536 = (v div 65536) mod 256 + 256 * ((v div 16777216) mod 256)"
    using zmod_zmult2_eq [of 256 "v div 65536" 256] by (simp add: d)
  show ?thesis by (simp only: a b c)
qed

lemma le_int_le32: "le_int (le32 v) = v mod 4294967296"
  by (simp add: le_int_def le32_def uint_word_of_int split_u32)


lemma length_le32 [simp]: "length (le32 v) = 4"
  by (simp add: le32_def)

lemma odd_low_byte: "odd (uint (word_of_int r :: byte)) = odd r"
proof -
  have "uint (word_of_int r :: byte) = r mod 256" by (simp add: uint_word_of_int)
  moreover have "even (r mod 256) = even r"
    by (metis dvd_mod_iff even_numeral numeral_Bit0 dvd_mult2 dvd_mult)
  ultimately show ?thesis by simp
qed

lemma pack_all_pack_I:
  "pack_all (map (pack_I big) vs) = Inr d \<Longrightarrow>
     (\<forall>v\<in>set vs. 0 \<le> v \<and> v < 4294967296) \<and>
     d = concat (map (\<lambda>v. if big then rev (le32 v) else le32 v) vs)"
  by (induction vs arbitrary: d) (auto simp: pack_I_def split: sum.splits if_splits)

subsection \<open>The random generator\<close>

lemma choice_in_set: "xs \<noteq> [] \<Longrightarrow> fst (choice xs g) \<in> set xs"
  by (auto simp: choice_def randbelow_def split: prod.splits)

lemma randbelow_less: "0 < n \<Longrightarrow> randbelow n g = (i, g') \<Longrightarrow> i < n"
  by (auto simp: randbelow_def split: prod.splits)

lemma randint_range: "a \<le> b \<Longrightarrow> randint a b g = (x, g') \<Longrightarrow> a \<le> x \<and> x \<le> b"
proof -
  assume ab: "a \<le> b" and r: "randint a b g = (x, g')"
  obtain i where i: "randbelow (nat (b - a + 1)) g = (i, g')" and x: "x = a + int i"
    using r by (auto simp: randint_def split: prod.splits)
  have "i < nat (b - a + 1)" using randbelow_less [OF _ i] ab by simp
  then show ?thesis using x ab by linarith
qed

section \<open>The Cortex-M vector table (claim C5)\<close>

lemma length_cortexm_handlers: "cortexm_handlers n b N g = (hs, g') \<Longrightarrow> length hs = n"
  by (induction n arbitrary: g hs g') (auto split: prod.splits)

text \<open>
  Claim C5. Every header that \<open>vector_table_cortexm\<close> returns is the little-endian
  packing of \<open>N\<close> 32-bit words with \<open>N\<close> one of 16, 32, 48, 64; the word at offset 0
  (the initial stack pointer) is one of \<open>0x20005000\<close>, \<open>0x20010000\<close>, \<open>0x20020000\<close>,
  \<open>0x20040000\<close>; the word at offset 4 (the reset vector) is \<open>(base_addr + N * 4) | 1\<close>;
  and the byte at offset 4 is odd (its least significant bit is 1).
\<close>

theorem vector_table_cortexm_words:
  assumes "vector_table_cortexm endi g kw = Inr (h, g')"
  shows "\<exists>N sp ws.
           N \<in> {16, 32, 48, 64}
         \<and> sp \<in> {0x20005000, 0x20010000, 0x20020000, 0x20040000}
         \<and> length ws = nat N
         \<and> list_all (\<lambda>w. 0 \<le> w \<and> w < 4294967296) ws
         \<and> data h = concat (map le32 ws)
         \<and> le_int (take 4 (data h)) = sp
         \<and> le_int (take 4 (drop 4 (data h))) = (kw_get (kw_base_addr kw) 0x08000000 + N * 4) OR 1
         \<and> odd (uint (data h ! 4))"
proof -
  let ?base = "kw_get (kw_base_addr kw) 0x08000000"
  obtain N g1 where c1: "choice [16, 32, 48, 64 :: int] g = (N, g1)"
    by (cases "choice [16, 32, 48, 64 :: int] g")
  obtain sp g2 where
    c2: "choice [0x20005000, 0x20010000, 0x20020000, 0x20040000 :: int] g1 = (sp, g2)"
    by (cases "choice [0x20005000, 0x20010000, 0x20020000, 0x20040000 :: int] g1")
  obtain hs g3 where c3: "cortexm_handlers (nat (N - 2)) ?base N g2 = (hs, g3)"
    by (cases "cortexm_handlers (nat (N - 2)) ?base N g2")
  let ?r = "(?base + N * 4) OR 1"
  let ?ws = "sp # ?r # hs"
  have p: "pack_all (map (pack_I False) ?ws) = Inr (data h)"
    using assms
    by (auto simp: vector_table_cortexm_def Let_def c1 c2 c3 split: sum.splits)
  have N: "N \<in> {16, 32, 48, 64}"
    using choice_in_set [of "[16, 32, 48, 64 :: int]" g] c1 by simp
  have sp: "sp \<in> {0x20005000, 0x20010000, 0x20020000, 0x20040000}"
    using choice_in_set [of "[0x20005000, 0x20010000, 0x20020000, 0x20040000 :: int]" g1] c2
    by simp
  have len: "length ?ws = nat N"
    using length_cortexm_handlers [OF c3] N by auto
  from pack_all_pack_I [OF p]
  have rng: "\<forall>v\<in>set ?ws. 0 \<le> v \<and> v < 4294967296" and d: "data h = concat (map le32 ?ws)"
    by simp_all
  have d1: "take 4 (data h) = le32 sp" and d2: "take 4 (drop 4 (data h)) = le32 ?r"
    and d3: "data h ! 4 = word_of_int ?r"
    by (simp_all add: d nth_append) (simp add: le32_def)
  have "le_int (take 4 (data h)) = sp"
    using rng by (simp add: d1 le_int_le32)
  moreover have "le_int (take 4 (drop 4 (data h))) = ?r"
    using rng by (simp add: d2 le_int_le32)
  moreover have "odd (uint (data h ! 4))"
    by (simp add: d3 odd_low_byte even_or_iff)
  moreover have "list_all (\<lambda>w. 0 \<le> w \<and> w < 4294967296) ?ws"
    using rng by (simp add: list_all_iff)
  ultimately show ?thesis
    using N sp len d by blast
qed

lemma cortexm_example_runs:
  "(case vector_table_cortexm ''little'' [0, 1]
      \<lparr>kw_total_size = Some 4096, kw_base_addr = Some 0x08000000,
       kw_family_name = Some ''thumb''\<rparr>
    of Inl e \<Rightarrow> False | Inr r \<Rightarrow> True)"
  by code_simp

theorem vector_table_cortexm_words_witness:
  "\<exists>h g'. vector_table_cortexm ''little'' [0, 1]
      \<lparr>kw_total_size = Some 4096, kw_base_addr = Some 0x08000000,
       kw_family_name = Some ''thumb''\<rparr> = Inr (h, g')
    \<and> (\<exists>N sp ws.
           N \<in> {16, 32, 48, 64}
         \<and> sp \<in> {0x20005000, 0x20010000, 0x20020000, 0x20040000}
         \<and> length ws = nat N
         \<and> list_all (\<lambda>w. 0 \<le> w \<and> w < 4294967296) ws
         \<and> data h = concat (map le32 ws)
         \<and> le_int (take 4 (data h)) = sp
         \<and> le_int (take 4 (drop 4 (data h))) = (0x08000000 + N * 4) OR 1
         \<and> odd (uint (data h ! 4)))"
proof -
  let ?kw = "\<lparr>kw_total_size = Some 4096, kw_base_addr = Some 0x08000000,
              kw_family_name = Some ''thumb''\<rparr>"
  obtain h g' where e: "vector_table_cortexm ''little'' [0, 1] ?kw = Inr (h, g')"
    using cortexm_example_runs by (cases "vector_table_cortexm ''little'' [0, 1] ?kw") auto
  from vector_table_cortexm_words [OF e] e show ?thesis
    by (simp add: kw_get_def)
qed

section \<open>The layout engine: sections are contiguous and well-formed\<close>

subsection \<open>Alignment\<close>

lemma and_not_mask_int: "(x::int) AND NOT (mask n) = push_bit n (drop_bit n x)"
  by (rule bit_eqI) (auto simp: bit_and_iff bit_not_iff bit_mask_iff bit_push_bit_iff bit_drop_bit_eq)

lemma and_minus_2: "(x::int) AND - 2 = 2 * (x div 2)"
  using and_not_mask_int [of x 1] by (simp add: mask_eq_exp_minus_1 push_bit_eq_mult drop_bit_eq_div)

lemma and_minus_4: "(x::int) AND - 4 = 4 * (x div 4)"
  using and_not_mask_int [of x 2] by (simp add: mask_eq_exp_minus_1 push_bit_eq_mult drop_bit_eq_div)

lemma and_minus_256: "(x::int) AND - 256 = 256 * (x div 256)"
  using and_not_mask_int [of x 8] by (simp add: mask_eq_exp_minus_1 push_bit_eq_mult drop_bit_eq_div)

lemma align_up_1: "align_up v 1 = v" by (simp add: align_up_def)
lemma align_up_2: "align_up v 2 = 2 * ((v + 1) div 2)" by (simp add: align_up_def and_minus_2 add.commute)
lemma align_up_4: "align_up v 4 = 4 * ((v + 3) div 4)" by (simp add: align_up_def and_minus_4 add.commute)
lemma align_up_256: "align_up v 256 = 256 * ((v + 255) div 256)" by (simp add: align_up_def and_minus_256 add.commute)

lemma align_up_props:
  assumes "a \<in> {1, 2, 4}"
  shows "v \<le> align_up v a" and "align_up v a < v + a" and "align_up v a mod a = 0"
  using assms by (auto simp: align_up_1 align_up_2 align_up_4)

lemma isa_alignments: "list_all (\<lambda>kv. IsaFamily.alignment (snd kv) \<in> {1, 2, 4}) ISA_FAMILIES"
  by code_simp

lemma family_alignment_cases: "family_alignment fam \<in> {1, 2, 4}"
proof (cases "map_of ISA_FAMILIES fam")
  case None then show ?thesis by (simp add: family_alignment_def)
next
  case (Some i)
  then have "(fam, i) \<in> set ISA_FAMILIES" by (rule map_of_SomeD)
  with isa_alignments have "IsaFamily.alignment i \<in> {1, 2, 4}"
    by (auto simp: list_all_iff)
  with Some show ?thesis by (simp add: family_alignment_def)
qed

lemma end_of_simps [simp]: "end_of c [] = c" "end_of c (s # ss) = end_of (c + size_s s) ss"
  by (simp_all add: end_of_def)

lemma chain_append: "chain c (xs @ ys) = (chain c xs \<and> chain (end_of c xs) ys)"
  by (induction xs arbitrary: c) auto

lemma end_of_append: "end_of c (xs @ ys) = end_of (end_of c xs) ys"
  by (simp add: end_of_def)

subsection \<open>Weighted choices\<close>

lemma weighted_scan_in_set: "weighted_scan r c opts = Some x \<Longrightarrow> x \<in> fst ` set opts"
  by (induction r c opts rule: weighted_scan.induct) (auto split: if_splits)

lemma weighted_choice_in_set:
  assumes "opts \<noteq> []" and "weighted_choice opts g = (x, g')"
  shows "x \<in> fst ` set opts"
proof -
  obtain k g1 where r: "random53 g = (k, g1)" by (cases "random53 g")
  show ?thesis
  proof (cases "weighted_scan (k * sum_list (map snd opts)) 0 opts")
    case None
    with assms r have "x = fst (last opts)" by (simp add: weighted_choice_def Let_def)
    with assms(1) show ?thesis by simp
  next
    case (Some y)
    with assms r have "x = y" by (simp add: weighted_choice_def Let_def)
    with Some show ?thesis by (simp add: weighted_scan_in_set)
  qed
qed

lemma pick_non_code_section_props:
  assumes "pick_non_code_section g m = ((t, sz, ps), g')"
  shows "t \<in> {PADDING, STRING_TABLE, FILESYSTEM, RANDOM, RODATA}" and "16 \<le> sz"
proof -
  obtain t0 g1 where w: "weighted_choice NON_CODE_WEIGHTS g = (t0, g1)"
    by (cases "weighted_choice NON_CODE_WEIGHTS g")
  have t0: "t0 \<in> {PADDING, STRING_TABLE, FILESYSTEM, RANDOM, RODATA}"
    using weighted_choice_in_set [OF _ w] by (auto simp: NON_CODE_WEIGHTS_def)
  have ri: "\<And>a b g x g'. a \<le> b \<Longrightarrow> randint a b g = (x, g') \<Longrightarrow> a \<le> x"
    using randint_range by blast
  from assms w t0 show "t \<in> {PADDING, STRING_TABLE, FILESYSTEM, RANDOM, RODATA}"
    by (auto simp: pick_non_code_section_def Let_def split: prod.splits if_splits)
  from assms w t0 show "16 \<le> sz"
    by (auto simp: pick_non_code_section_def Let_def split: prod.splits if_splits dest!: ri [rotated])
qed

subsection \<open>The invariant of the two loops\<close>

lemma sec_ok_mono: "set fams \<subseteq> set fams' \<Longrightarrow> sec_ok fams s \<Longrightarrow> sec_ok fams' s"
  by (auto simp: sec_ok_def split: SectionType.splits option.splits)

lemma layout_inv_align_cursor:
  assumes "layout_inv fams st" and "a \<in> {1, 2, 4}"
  shows "layout_inv fams (align_cursor a st)"
    and "ls_cursor (align_cursor a st) = align_up (ls_cursor st) a"
proof -
  have ge: "ls_cursor st \<le> align_up (ls_cursor st) a" using align_up_props(1) [OF assms(2)] .
  show "ls_cursor (align_cursor a st) = align_up (ls_cursor st) a"
    using ge by (auto simp: align_cursor_def Let_def)
  show "layout_inv fams (align_cursor a st)"
    using assms(1)
    by (auto simp: layout_inv_def align_cursor_def Let_def chain_append end_of_append sec_ok_def)
qed

lemma layout_inv_append_code:
  assumes "layout_inv fams st" and "fam \<in> set fams" and "0 < sz"
    and "ls_cursor st mod family_alignment fam = 0"
  shows "layout_inv fams (append_code fam (family_alignment fam) blob sz st)"
  using assms
  by (auto simp: layout_inv_def append_code_def chain_append end_of_append sec_ok_def)

lemma layout_inv_maybe_noncode:
  assumes "layout_inv fams st"
  shows "layout_inv fams (maybe_noncode st)"
proof -
  obtain k g3 where r: "random53 (ls_rng st) = (k, g3)" by (cases "random53 (ls_rng st)")
  show ?thesis
  proof (cases "k < 2702159776422298 \<and> 64 \<le> ls_noncode_budget st")
    case False
    with assms r show ?thesis by (auto simp: maybe_noncode_def layout_inv_def)
  next
    case True
    obtain t sz ps g4 where p: "pick_non_code_section g3 (ls_noncode_budget st) = ((t, sz, ps), g4)"
      by (metis prod_cases3 surj_pair)
    note pp = pick_non_code_section_props [OF p]
    have m: "16 \<le> min sz (ls_noncode_budget st)" using pp(2) True by simp
    from assms r True p pp(1) m show ?thesis
      by (auto simp: maybe_noncode_def layout_inv_def Let_def chain_append end_of_append sec_ok_def)
  qed
qed

lemma layout_inv_fill_step:
  assumes "layout_inv fams st" and "fill_step limit st = Continue st'"
  shows "layout_inv fams st'"
proof -
  obtain t sz ps g1 where p: "pick_non_code_section (ls_rng st) (ls_noncode_budget st) = ((t, sz, ps), g1)"
    by (metis prod_cases3 surj_pair)
  note pp = pick_non_code_section_props [OF p]
  from assms p pp(1) show ?thesis
    by (auto simp: fill_step_def layout_inv_def Let_def chain_append end_of_append sec_ok_def
        split: if_splits)
qed

lemma layout_inv_fill_step_break:
  assumes "layout_inv fams st" and "fill_step limit st = Break st'"
  shows "layout_inv fams st'"
proof -
  obtain t sz ps g1 where p: "pick_non_code_section (ls_rng st) (ls_noncode_budget st) = ((t, sz, ps), g1)"
    by (metis prod_cases3 surj_pair)
  from assms p show ?thesis
    by (auto simp: fill_step_def layout_inv_def Let_def split: if_splits)
qed

lemma layout_inv_fill_loop: "layout_inv fams st \<Longrightarrow> layout_inv fams (fill_loop limit st)"
proof (induction limit st rule: fill_loop.induct)
  case (1 limit st)
  show ?case
  proof (cases "32 \<le> ls_noncode_budget st \<and> ls_cursor st < limit")
    case False
    then have "fill_loop limit st = st" by (subst fill_loop.simps) auto
    with 1 show ?thesis by simp
  next
    case True
    show ?thesis
    proof (cases "fill_step limit st")
      case (Break st')
      then have "fill_loop limit st = st'" using True by (subst fill_loop.simps) auto
      with 1(2) Break show ?thesis using layout_inv_fill_step_break by simp
    next
      case (Continue st')
      then have "fill_loop limit st = fill_loop limit st'" using True by (subst fill_loop.simps) auto
      with 1 True Continue show ?thesis using layout_inv_fill_step by simp
    qed
  qed
qed

lemma align_is_family_alignment:
  "(case map_of ISA_FAMILIES fam of Some fam_info \<Rightarrow> IsaFamily.alignment fam_info | None \<Rightarrow> 4)
     = family_alignment fam"
  by (simp add: family_alignment_def)

lemma code_step_cases:
  assumes "code_step idx st = Inr r"
  obtains (empty) fam queue_tl g1 st' where
      "ls_family_queue st = fam # queue_tl"
      "get_random_blob idx fam (ls_rng st) = (None, g1)"
      "st' = st\<lparr>ls_family_queue := filter (\<lambda>f. f \<noteq> fam) (queue_tl @ [fam]), ls_rng := g1\<rparr>"
      "r = (if filter (\<lambda>f. f \<noteq> fam) (queue_tl @ [fam]) = [] then Break st' else Continue st')"
  | (small) fam queue_tl blob g1 m g2 where
      "ls_family_queue st = fam # queue_tl"
      "get_random_blob idx fam (ls_rng st) = (Some blob, g1)"
      "choice [1, 1, 1, 2, 3] g1 = (m, g2)"
      "code_section_size (size_bytes blob) m (ls_code_remaining st) (family_alignment fam) < 4"
      "r = Break (st\<lparr>ls_family_queue := queue_tl @ [fam], ls_rng := g2\<rparr>)"
  | (emit) fam queue_tl blob g1 m g2 where
      "ls_family_queue st = fam # queue_tl"
      "get_random_blob idx fam (ls_rng st) = (Some blob, g1)"
      "choice [1, 1, 1, 2, 3] g1 = (m, g2)"
      "4 \<le> code_section_size (size_bytes blob) m (ls_code_remaining st) (family_alignment fam)"
      "r = Continue (maybe_noncode
             (append_code fam (family_alignment fam) blob
                (code_section_size (size_bytes blob) m (ls_code_remaining st) (family_alignment fam))
                (align_cursor (family_alignment fam)
                   (st\<lparr>ls_family_queue := queue_tl @ [fam], ls_rng := g2\<rparr>))))"
proof (cases "ls_family_queue st")
  case Nil
  with assms show ?thesis by (simp add: code_step_def)
next
  case (Cons fam queue_tl)
  obtain b g1 where gb: "get_random_blob idx fam (ls_rng st) = (b, g1)"
    by (cases "get_random_blob idx fam (ls_rng st)")
  show ?thesis
  proof (cases b)
    case None
    with assms Cons gb show ?thesis
      by (intro empty [of fam queue_tl g1]) (auto simp: code_step_def Let_def split: if_splits)
  next
    case (Some blob)
    obtain m g2 where ch: "choice [1, 1, 1, 2, 3 :: int] g1 = (m, g2)"
      by (cases "choice [1, 1, 1, 2, 3 :: int] g1")
    show ?thesis
    proof (cases "code_section_size (size_bytes blob) m (ls_code_remaining st) (family_alignment fam) < 4")
      case True
      with assms Cons gb Some ch show ?thesis
        by (intro small [of fam queue_tl blob g1 m g2])
           (auto simp: code_step_def Let_def align_is_family_alignment)
    next
      case False
      with assms Cons gb Some ch show ?thesis
        by (intro emit [of fam queue_tl blob g1 m g2])
           (auto simp: code_step_def Let_def align_is_family_alignment)
    qed
  qed
qed

lemma layout_inv_queue_update:
  "layout_inv fams st \<Longrightarrow> set q \<subseteq> set fams \<Longrightarrow>
     layout_inv fams (st\<lparr>ls_family_queue := q, ls_rng := g\<rparr>)"
  by (simp add: layout_inv_def)

lemma layout_inv_code_step:
  assumes inv: "layout_inv fams st" and step: "code_step idx st = Inr r"
  shows "layout_inv fams (case r of Break s \<Rightarrow> s | Continue s \<Rightarrow> s)"
    and "\<And>s. r = Continue s \<Longrightarrow> ls_family_queue s \<noteq> []"
proof -
  have q: "set (ls_family_queue st) \<subseteq> set fams" using inv by (simp add: layout_inv_def)
  have "layout_inv fams (case r of Break s \<Rightarrow> s | Continue s \<Rightarrow> s)
        \<and> (\<forall>s. r = Continue s \<longrightarrow> ls_family_queue s \<noteq> [])"
    using step
  proof (cases rule: code_step_cases)
    case (empty fam queue_tl g1 st')
    have "set (filter (\<lambda>f. f \<noteq> fam) (queue_tl @ [fam])) \<subseteq> set fams"
      using q empty(1) by auto
    then have "layout_inv fams st'"
      unfolding empty(3) using inv by (rule layout_inv_queue_update [rotated])
    then show ?thesis using empty(3,4) by auto
  next
    case (small fam queue_tl blob g1 m g2)
    have "set (queue_tl @ [fam]) \<subseteq> set fams" using q small(1) by auto
    then show ?thesis
      unfolding small(5) using inv by (simp add: layout_inv_queue_update)
  next
    case (emit fam queue_tl blob g1 m g2)
    let ?a = "family_alignment fam"
    let ?st0 = "st\<lparr>ls_family_queue := queue_tl @ [fam], ls_rng := g2\<rparr>"
    have fam: "fam \<in> set fams" using q emit(1) by auto
    have "set (queue_tl @ [fam]) \<subseteq> set fams" using q emit(1) by auto
    then have i0: "layout_inv fams ?st0" using inv by (simp add: layout_inv_queue_update)
    note ac = layout_inv_align_cursor [OF i0 family_alignment_cases [of fam]]
    have al: "ls_cursor (align_cursor ?a ?st0) mod ?a = 0"
      unfolding ac(2) using align_up_props(3) [OF family_alignment_cases [of fam]] by simp
    have "layout_inv fams (append_code fam ?a blob
            (code_section_size (size_bytes blob) m (ls_code_remaining st) ?a)
            (align_cursor ?a ?st0))"
      using layout_inv_append_code [OF ac(1) fam _ al] emit(4) by simp
    then have "layout_inv fams (maybe_noncode (append_code fam ?a blob
            (code_section_size (size_bytes blob) m (ls_code_remaining st) ?a)
            (align_cursor ?a ?st0)))"
      by (rule layout_inv_maybe_noncode)
    then show ?thesis unfolding emit(5) by simp
  qed
  then show "layout_inv fams (case r of Break s \<Rightarrow> s | Continue s \<Rightarrow> s)"
    and "\<And>s. r = Continue s \<Longrightarrow> ls_family_queue s \<noteq> []"
    by auto
qed

lemma code_step_total: "ls_family_queue st \<noteq> [] \<Longrightarrow> \<exists>r. code_step idx st = Inr r"
  by (cases "ls_family_queue st")
     (auto simp: code_step_def Let_def split: prod.splits option.splits)

lemma code_loop_inv:
  "layout_inv fams st \<Longrightarrow> ls_family_queue st \<noteq> [] \<Longrightarrow>
     \<exists>st'. code_loop idx st = Inr st' \<and> layout_inv fams st'"
proof (induction idx st rule: code_loop.induct)
  case (1 idx st)
  show ?case
  proof (cases "64 \<le> ls_code_remaining st")
    case False
    then have "code_loop idx st = Inr st" by (subst code_loop.simps) auto
    with 1(2) show ?thesis by simp
  next
    case True
    obtain r where r: "code_step idx st = Inr r" using code_step_total [OF 1(3)] by blast
    note inv = layout_inv_code_step [OF 1(2) r]
    show ?thesis
    proof (cases r)
      case (Break s)
      then have "code_loop idx st = Inr s" using True r by (subst code_loop.simps) auto
      with inv(1) Break show ?thesis by simp
    next
      case (Continue s)
      then have e: "code_loop idx st = code_loop idx s" using True r by (subst code_loop.simps) auto
      have "\<exists>st'. code_loop idx s = Inr st' \<and> layout_inv fams st'"
        using 1(1) [OF True r Continue] inv Continue by simp
      with e show ?thesis by simp
    qed
  qed
qed

lemma layout_inv_close_gap: "layout_inv fams st \<Longrightarrow> layout_inv fams (close_gap T ts st)"
  by (auto simp: close_gap_def layout_inv_def Let_def chain_append end_of_append sec_ok_def)

lemma close_gap_cursor: "T - ts \<le> ls_cursor (close_gap T ts st)"
  by (auto simp: close_gap_def Let_def)

text \<open>The loops only append sections.\<close>

lemma maybe_noncode_extends: "\<exists>ext. ls_sections (maybe_noncode st) = ls_sections st @ ext"
  by (auto simp: maybe_noncode_def Let_def split: prod.splits)

lemma align_cursor_extends: "\<exists>ext. ls_sections (align_cursor a st) = ls_sections st @ ext"
  by (auto simp: align_cursor_def Let_def)

lemma append_code_extends: "\<exists>ext. ls_sections (append_code fam a b sz st) = ls_sections st @ ext"
  by (auto simp: append_code_def)

lemma code_step_extends:
  assumes "code_step idx st = Inr r"
  shows "\<exists>ext. ls_sections (case r of Break s \<Rightarrow> s | Continue s \<Rightarrow> s) = ls_sections st @ ext"
  using assms
proof (cases rule: code_step_cases)
  case (empty fam queue_tl g1 st')
  then show ?thesis by auto
next
  case (small fam queue_tl blob g1 m g2)
  then show ?thesis by auto
next
  case (emit fam queue_tl blob g1 m g2)
  let ?a = "family_alignment fam"
  let ?st0 = "st\<lparr>ls_family_queue := queue_tl @ [fam], ls_rng := g2\<rparr>"
  let ?sz = "code_section_size (size_bytes blob) m (ls_code_remaining st) ?a"
  obtain e1 where e1: "ls_sections (align_cursor ?a ?st0) = ls_sections st @ e1"
    using align_cursor_extends [of ?a ?st0] by auto
  obtain e2 where e2: "ls_sections (append_code fam ?a blob ?sz (align_cursor ?a ?st0))
                        = ls_sections (align_cursor ?a ?st0) @ e2"
    using append_code_extends by blast
  obtain e3 where e3: "ls_sections (maybe_noncode (append_code fam ?a blob ?sz (align_cursor ?a ?st0)))
                        = ls_sections (append_code fam ?a blob ?sz (align_cursor ?a ?st0)) @ e3"
    using maybe_noncode_extends by blast
  show ?thesis unfolding emit(5) using e1 e2 e3 by simp
qed

lemma code_loop_extends:
  "code_loop idx st = Inr st' \<Longrightarrow> \<exists>ext. ls_sections st' = ls_sections st @ ext"
proof (induction idx st arbitrary: st' rule: code_loop.induct)
  case (1 idx st)
  show ?case
  proof (cases "64 \<le> ls_code_remaining st")
    case False
    then have "code_loop idx st = Inr st" by (subst code_loop.simps) auto
    with 1(2) show ?thesis by simp
  next
    case True
    show ?thesis
    proof (cases "code_step idx st")
      case (Inl e)
      then have "code_loop idx st = Inl e" using True by (subst code_loop.simps) auto
      with 1(2) show ?thesis by simp
    next
      case (Inr r)
      note ext = code_step_extends [OF Inr]
      show ?thesis
      proof (cases r)
        case (Break s)
        then have "code_loop idx st = Inr s" using True Inr by (subst code_loop.simps) auto
        with 1(2) ext Break show ?thesis by auto
      next
        case (Continue s)
        then have "code_loop idx st = code_loop idx s" using True Inr by (subst code_loop.simps) auto
        with 1(2) have "code_loop idx s = Inr st'" by simp
        from 1(1) [OF True Inr Continue this] ext Continue show ?thesis by auto
      qed
    qed
  qed
qed

lemma fill_step_extends:
  "\<exists>ext. ls_sections (case fill_step limit st of Break s \<Rightarrow> s | Continue s \<Rightarrow> s) = ls_sections st @ ext"
  by (auto simp: fill_step_def Let_def split: prod.splits)

lemma fill_loop_extends: "\<exists>ext. ls_sections (fill_loop limit st) = ls_sections st @ ext"
proof (induction limit st rule: fill_loop.induct)
  case (1 limit st)
  show ?case
  proof (cases "32 \<le> ls_noncode_budget st \<and> ls_cursor st < limit")
    case False
    then have "fill_loop limit st = st" by (subst fill_loop.simps) auto
    then show ?thesis by simp
  next
    case True
    note ext = fill_step_extends [of limit st]
    show ?thesis
    proof (cases "fill_step limit st")
      case (Break s)
      then have "fill_loop limit st = s" using True by (subst fill_loop.simps) auto
      with ext Break show ?thesis by auto
    next
      case (Continue s)
      then have "fill_loop limit st = fill_loop limit s" using True by (subst fill_loop.simps) auto
      with 1 [OF True Continue] ext Continue show ?thesis by auto
    qed
  qed
qed

lemma close_gap_extends: "\<exists>ext. ls_sections (close_gap T ts st) = ls_sections st @ ext"
  by (auto simp: close_gap_def Let_def)

subsection \<open>The section list\<close>

lemma header_sizes_nonneg: "list_all (\<lambda>kv. 0 \<le> snd kv) HEADER_SIZES"
  by code_simp

lemma header_size_of_nonneg: "0 \<le> header_size_of htype"
proof (cases "map_of HEADER_SIZES htype")
  case None then show ?thesis by (simp add: header_size_of_def)
next
  case (Some h)
  then have "(htype, h) \<in> set HEADER_SIZES" by (rule map_of_SomeD)
  with header_sizes_nonneg have "0 \<le> h" by (auto simp: list_all_iff)
  with Some show ?thesis by (simp add: header_size_of_def)
qed

lemma build_sections_props:
  assumes fams: "fams \<noteq> []" and ts: "0 \<le> ts"
  shows "\<exists>content T.
           build_sections idx fams htype ttype ts total0 g
             = Inr (content @ (if ts > 0 then [trailer_section ttype (end_of 0 content) ts] else []), T)
         \<and> chain 0 content \<and> list_all (sec_ok fams) content
         \<and> T - ts \<le> end_of 0 content
         \<and> header_size_of htype + 64 \<le> T - ts
         \<and> (0 < header_size_of htype \<longrightarrow> (\<exists>rest. content = header_section htype # rest))"
proof -
  let ?hs = "header_size_of htype"
  let ?sections0 = "if ?hs > 0 then [header_section htype] else []"
  let ?cursor0 = "if ?hs > 0 then ?hs else 0"
  let ?usable0 = "total0 - ?cursor0 - ts"
  let ?T = "if ?usable0 < 64 then ?cursor0 + ts + 256 else total0"
  let ?usable = "if ?usable0 < 64 then 256 else ?usable0"
  obtain kf g1 where r: "random53 g = (kf, g1)" by (cases "random53 g")
  let ?cb = "(?usable * (3 * 9007199254740992 + 4 * int kf)) div (10 * 9007199254740992)"
  let ?st0 = "\<lparr>ls_sections = ?sections0, ls_cursor = ?cursor0, ls_code_remaining = ?cb,
               ls_noncode_budget = ?usable - ?cb, ls_family_queue = fams, ls_rng = g1\<rparr>"
  have c0: "?cursor0 = ?hs" using header_size_of_nonneg [of htype] by auto
  have inv0: "layout_inv fams ?st0"
    by (auto simp: layout_inv_def header_section_def sec_ok_def)
  obtain st1 where cl: "code_loop idx ?st0 = Inr st1" and inv1: "layout_inv fams st1"
    using code_loop_inv [OF inv0, of idx] fams by auto
  let ?st2 = "fill_loop (?T - ts) st1"
  let ?st3 = "close_gap ?T ts ?st2"
  have inv3: "layout_inv fams ?st3"
    using inv1 by (intro layout_inv_close_gap layout_inv_fill_loop)
  obtain e1 where e1: "ls_sections st1 = ?sections0 @ e1" using code_loop_extends [OF cl] by auto
  obtain e2 where e2: "ls_sections ?st2 = ls_sections st1 @ e2" using fill_loop_extends by blast
  obtain e3 where e3: "ls_sections ?st3 = ls_sections ?st2 @ e3" using close_gap_extends by blast
  let ?content = "ls_sections ?st3"
  have cur: "ls_cursor ?st3 = end_of 0 ?content" using inv3 by (simp add: layout_inv_def)
  have res: "build_sections idx fams htype ttype ts total0 g
               = Inr (append_trailer ttype ts ?st3, ?T)"
    using r cl
    unfolding build_sections_def Let_def header_size_of_def [symmetric] header_section_def
    by simp
  have tr: "append_trailer ttype ts ?st3
              = ?content @ (if ts > 0 then [trailer_section ttype (end_of 0 ?content) ts] else [])"
    by (simp add: append_trailer_def trailer_section_def cur)
  have hd: "0 < ?hs \<longrightarrow> (\<exists>rest. ?content = header_section htype # rest)"
    using e1 e2 e3 by auto
  have lim: "?T - ts \<le> end_of 0 ?content"
    using close_gap_cursor [of ?T ts ?st2] cur by simp
  have big: "?hs + 64 \<le> ?T - ts" using c0 by auto
  from res tr inv3 hd lim big show ?thesis
    unfolding layout_inv_def by (metis (no_types, lifting))
qed

subsection \<open>\<open>generate_layout\<close>\<close>

lemma pick_trailer_type_cases:
  "pick_trailer_type g = (tt, g') \<Longrightarrow> tt \<in> {''crc32'', ''md5'', ''sha256'', ''none''}"
  using weighted_choice_in_set [of TRAILER_WEIGHTS g tt g']
  by (auto simp: pick_trailer_type_def TRAILER_WEIGHTS_def)

lemma trailer_size_lookup:
  "tt \<in> {''crc32'', ''md5'', ''sha256'', ''none''} \<Longrightarrow>
     map_of TRAILER_SIZES tt = Some (get_trailer_size tt) \<and> get_trailer_size tt \<in> {0, 4, 16, 32}"
  by (auto simp: TRAILER_SIZES_def get_trailer_size_def)

lemma decide_multi_isa_hd:
  "decide_multi_isa E primary forced g = (fams, g') \<Longrightarrow> \<exists>rest. fams = primary # rest"
  by (auto simp: decide_multi_isa_def split: option.splits prod.splits if_splits)

lemma generate_layout_cases:
  assumes "generate_layout E g seq p f = Inr l"
  obtains primary g1 info fams g4 htype g5 ttype g6 total0 g7 secs T where
    "(case p of None \<Rightarrow> pick_primary_isa E g | Some q \<Rightarrow> (q, g)) = (primary, g1)"
    "map_of ISA_FAMILIES primary = Some info"
    "decide_multi_isa E primary f g1 = (fams, g4)"
    "pick_header_type primary g4 = (htype, g5)"
    "pick_trailer_type g5 = (ttype, g6)"
    "pick_total_size (config E) g6 = Inr (total0, g7)"
    "build_sections (blob_index E) fams htype ttype (get_trailer_size ttype) total0 g7 = Inr (secs, T)"
    "l = \<lparr>image_id = ''fw_'' @ str_int (FirmwareGenConfig.seed (config E)) @ ''_'' @ fmt_06d seq,
          total_size = T, primary_isa = primary, header_type = htype, trailer_type = ttype,
          sections = secs, all_isa_families = fams,
          seed = FirmwareGenConfig.seed (config E) + seq\<rparr>"
proof -
  obtain primary g1 where a: "(case p of None \<Rightarrow> pick_primary_isa E g | Some q \<Rightarrow> (q, g)) = (primary, g1)"
    by (cases "(case p of None \<Rightarrow> pick_primary_isa E g | Some q \<Rightarrow> (q, g))")
  obtain fams g4 where b: "decide_multi_isa E primary f g1 = (fams, g4)"
    by (cases "decide_multi_isa E primary f g1")
  obtain htype g5 where c: "pick_header_type primary g4 = (htype, g5)"
    by (cases "pick_header_type primary g4")
  obtain ttype g6 where d: "pick_trailer_type g5 = (ttype, g6)"
    by (cases "pick_trailer_type g5")
  note ts = trailer_size_lookup [OF pick_trailer_type_cases [OF d]]
  from assms a b c d ts that show ?thesis
    by (auto simp: generate_layout_def split: option.splits sum.splits)
qed

lemma generate_layout_props:
  assumes "generate_layout E g seq p f = Inr l"
  shows "(\<exists>content.
           sections l = content @ (if get_trailer_size (trailer_type l) > 0
              then [trailer_section (trailer_type l) (end_of 0 content)
                      (get_trailer_size (trailer_type l))] else [])
         \<and> chain 0 content \<and> list_all (sec_ok (all_isa_families l)) content
         \<and> total_size l - get_trailer_size (trailer_type l) \<le> end_of 0 content
         \<and> header_size_of (header_type l) + 64 \<le> total_size l - get_trailer_size (trailer_type l)
         \<and> (0 < header_size_of (header_type l)
              \<longrightarrow> (\<exists>rest. content = header_section (header_type l) # rest)))
    \<and> trailer_type l \<in> {''crc32'', ''md5'', ''sha256'', ''none''}
    \<and> (\<exists>rest. all_isa_families l = primary_isa l # rest)
    \<and> map_of ISA_FAMILIES (primary_isa l) \<noteq> None
    \<and> (\<forall>forced. f = Some forced \<longrightarrow> all_isa_families l = primary_isa l # forced)
    \<and> (\<forall>q. p = Some q \<longrightarrow> primary_isa l = q)"
  using assms
proof (cases rule: generate_layout_cases)
  case (1 primary g1 info fams g4 htype g5 ttype g6 total0 g7 secs T)
  note tt = pick_trailer_type_cases [OF 1(5)]
  note ts = trailer_size_lookup [OF tt]
  from decide_multi_isa_hd [OF 1(3)] obtain rest where fams: "fams = primary # rest" by auto
  have "fams \<noteq> []" using fams by simp
  moreover have "0 \<le> get_trailer_size ttype" using ts by auto
  ultimately obtain content T' where
    bs: "build_sections (blob_index E) fams htype ttype (get_trailer_size ttype) total0 g7
           = Inr (content @ (if get_trailer_size ttype > 0
                    then [trailer_section ttype (end_of 0 content) (get_trailer_size ttype)] else []), T')"
    and props: "chain 0 content" "list_all (sec_ok fams) content"
      "T' - get_trailer_size ttype \<le> end_of 0 content"
      "header_size_of htype + 64 \<le> T' - get_trailer_size ttype"
      "0 < header_size_of htype \<longrightarrow> (\<exists>rest. content = header_section htype # rest)"
    using build_sections_props [of fams "get_trailer_size ttype" "blob_index E" htype ttype total0 g7]
    by blast
  from bs 1(7) have eq: "secs = content @ (if get_trailer_size ttype > 0
                    then [trailer_section ttype (end_of 0 content) (get_trailer_size ttype)] else [])"
    "T = T'" by simp_all
  have forced: "\<And>forced. f = Some forced \<Longrightarrow> fams = primary # forced"
    using 1(3) by (auto simp: decide_multi_isa_def)
  have prim: "\<And>q. p = Some q \<Longrightarrow> primary = q" using 1(1) by auto
  show ?thesis
    unfolding 1(8) using eq props tt fams 1(2) forced prim by auto
qed

section \<open>The batch generator\<close>

subsection \<open>Quotas\<close>

lemma dict_add_keys [simp]: "map fst (dict_add d k v) = map fst d"
  by (induction d) (auto simp: dict_add_def)

lemma dict_add_sum:
  "distinct (map fst d) \<Longrightarrow> k \<in> fst ` set d \<Longrightarrow>
     sum_list (map snd (dict_add d k v)) = sum_list (map snd d) + v"
proof (induction d)
  case Nil then show ?case by simp
next
  case (Cons kv d)
  show ?case
  proof (cases "fst kv = k")
    case True
    then have "k \<notin> fst ` set d" using Cons.prems(1) by auto
    then have "dict_add d k v = d" by (induction d) (auto simp: dict_add_def)
    then have "dict_add (kv # d) k v = (fst kv, snd kv + v) # d"
      using True by (simp add: dict_add_def)
    then show ?thesis by simp
  next
    case False
    then have "k \<in> fst ` set d" using Cons.prems(2) by auto
    moreover have "dict_add (kv # d) k v = kv # dict_add d k v"
      using False by (simp add: dict_add_def)
    ultimately show ?thesis using Cons by simp
  qed
qed

lemma dict_add_ge:
  "0 \<le> v \<Longrightarrow> list_all (\<lambda>kv. b \<le> snd kv) d \<Longrightarrow> list_all (\<lambda>kv. b \<le> snd kv) (dict_add d k v)"
  by (induction d) (auto simp: dict_add_def)

lemma quotas_ok_add:
  "quotas_ok fams b q \<Longrightarrow> 0 \<le> v \<Longrightarrow> quotas_ok fams b (dict_add q k v)"
  by (simp add: quotas_ok_def dict_add_ge)

lemma extras_fold:
  assumes "distinct fams" and "0 < remainder" and "0 < tw"
  shows "set ws \<subseteq> set fw \<Longrightarrow> fst ` set fw \<subseteq> set fams \<Longrightarrow> quotas_ok fams b (fst qa) \<Longrightarrow>
         sum_list (map snd (fst qa)) = snd qa \<Longrightarrow>
         (let qa' = fold (\<lambda>fam_weight qa.
                          (let extra = (remainder * int (snd fam_weight)) div int tw
                           in (dict_add (fst qa) (fst fam_weight) extra, snd qa + extra))) ws qa
          in quotas_ok fams b (fst qa') \<and> sum_list (map snd (fst qa')) = snd qa')"
proof (induction ws arbitrary: qa)
  case Nil then show ?case by simp
next
  case (Cons w ws)
  let ?extra = "(remainder * int (snd w)) div int tw"
  let ?qa1 = "(dict_add (fst qa) (fst w) ?extra, snd qa + ?extra)"
  have e: "0 \<le> ?extra" using assms(2,3) by (simp add: pos_imp_zdiv_nonneg_iff)
  have k: "fst w \<in> fst ` set (fst qa)"
    using Cons.prems(1,2,3) by (force simp: quotas_ok_def)
  have d: "distinct (map fst (fst qa))" using Cons.prems(3) assms(1) by (simp add: quotas_ok_def)
  have 1: "quotas_ok fams b (fst ?qa1)" using Cons.prems(3) e by (simp add: quotas_ok_add)
  have 2: "sum_list (map snd (fst ?qa1)) = snd ?qa1"
    using dict_add_sum [OF d k] Cons.prems(4) by simp
  have "set ws \<subseteq> set fw" using Cons.prems(1) by auto
  from Cons.IH [OF this Cons.prems(2) 1 2] show ?case by (simp add: Let_def)
qed

lemma leftover_fold:
  assumes "distinct fams" and "sf \<noteq> []" and "fst ` set sf \<subseteq> set fams"
  shows "quotas_ok fams b q \<Longrightarrow>
         (let q' = fold (\<lambda>i q. dict_add q (fst (sf ! (i mod length sf))) 1) ixs q
          in quotas_ok fams b q' \<and> sum_list (map snd q') = sum_list (map snd q) + int (length ixs))"
proof (induction ixs arbitrary: q)
  case Nil then show ?case by simp
next
  case (Cons m ixs)
  let ?k = "fst (sf ! (m mod length sf))"
  let ?q1 = "dict_add q ?k 1"
  have "sf ! (m mod length sf) \<in> set sf" using assms(2) by simp
  then have k: "?k \<in> fst ` set q" using assms(3) Cons.prems by (force simp: quotas_ok_def)
  have d: "distinct (map fst q)" using Cons.prems assms(1) by (simp add: quotas_ok_def)
  have 1: "quotas_ok fams b ?q1" using Cons.prems by (simp add: quotas_ok_add)
  have 2: "sum_list (map snd ?q1) = sum_list (map snd q) + 1" using dict_add_sum [OF d k] .
  from Cons.IH [OF 1] 2 show ?case by (simp add: Let_def)
qed

lemma length_le_sum_quota:
  "list_all (\<lambda>kv. 1 \<le> snd kv) q \<Longrightarrow> int (length q) \<le> sum_list (map snd (q :: (string \<times> int) list))"
  by (induction q) auto

lemma phase1_quotas_props:
  assumes d: "distinct (map fst fw)" and ne: "fw \<noteq> []" and pos: "list_all (\<lambda>kv. 0 < snd kv) fw"
  shows "quotas_ok (map fst fw) 1 (phase1_quotas fw cnt)"
    and "cnt \<le> sum_list (map snd (phase1_quotas fw cnt))"
    and "int (length fw) \<le> sum_list (map snd (phase1_quotas fw cnt))"
proof -
  let ?fams = "map fst fw"
  let ?n = "int (length ?fams)"
  let ?base = "max 1 (cnt div ?n)"
  let ?q0 = "map (\<lambda>fam. (fam, ?base)) ?fams"
  let ?rem = "cnt - ?base * ?n"
  let ?tw = "sum_list (map snd fw)"
  have q0: "quotas_ok ?fams 1 ?q0" by (simp add: quotas_ok_def list_all_iff comp_def)
  have s0: "sum_list (map snd ?q0) = ?base * ?n"
    by (simp add: comp_def sum_list_triv algebra_simps)
  have npos: "0 < ?n" using ne by simp
  have twpos: "0 < ?tw"
  proof -
    obtain w ws where "fw = w # ws" using ne by (cases fw) auto
    then show ?thesis using pos by simp
  qed
  have res: "quotas_ok ?fams 1 (phase1_quotas fw cnt)
           \<and> cnt \<le> sum_list (map snd (phase1_quotas fw cnt))"
  proof (cases "0 < ?rem")
    case False
    then have "phase1_quotas fw cnt = ?q0" by (simp add: phase1_quotas_def Let_def)
    with q0 s0 False show ?thesis by simp
  next
    case True
    let ?f = "\<lambda>fam_weight qa.
                 (let extra = (?rem * int (snd fam_weight)) div int ?tw
                  in (dict_add (fst qa) (fst fam_weight) extra, snd qa + extra))"
    let ?qa = "fold ?f fw (?q0, ?base * ?n)"
    have qa: "quotas_ok ?fams 1 (fst ?qa) \<and> sum_list (map snd (fst ?qa)) = snd ?qa"
      using extras_fold [OF d True twpos, of fw fw 1 "(?q0, ?base * ?n)"] q0 s0
      by (simp add: Let_def)
    let ?left = "cnt - snd ?qa"
    let ?sf = "rev (sort_key snd (rev fw))"
    have "length ?sf = length fw" by simp
    then have sf1: "?sf \<noteq> []" using ne by (metis length_0_conv)
    have sf2: "fst ` set ?sf \<subseteq> set ?fams" by auto
    note sf = sf1 sf2
    let ?q' = "fold (\<lambda>i q. dict_add q (fst (?sf ! (i mod length ?sf))) 1) [0..<nat ?left] (fst ?qa)"
    have q': "quotas_ok ?fams 1 ?q' \<and> sum_list (map snd ?q') = snd ?qa + int (nat ?left)"
      using leftover_fold [OF d sf, of 1 "fst ?qa" "[0..<nat ?left]"] qa by (simp add: Let_def)
    have "phase1_quotas fw cnt = ?q'"
      using True by (simp add: phase1_quotas_def Let_def)
    with q' show ?thesis by auto
  qed
  then show "quotas_ok (map fst fw) 1 (phase1_quotas fw cnt)"
    and "cnt \<le> sum_list (map snd (phase1_quotas fw cnt))" by auto
  have "length (phase1_quotas fw cnt) = length fw"
    using res by (metis quotas_ok_def length_map)
  moreover have "list_all (\<lambda>kv. 1 \<le> snd kv) (phase1_quotas fw cnt)"
    using res by (simp add: quotas_ok_def)
  ultimately show "int (length fw) \<le> sum_list (map snd (phase1_quotas fw cnt))"
    using length_le_sum_quota [of "phase1_quotas fw cnt"] by simp
qed

subsection \<open>The two phases\<close>

lemma generate_layout_total:
  assumes "map_of ISA_FAMILIES p \<noteq> None" and "sizes_in_range (config E)"
  shows "\<exists>l. generate_layout E g seq (Some p) f = Inr l"
proof -
  obtain info where info: "map_of ISA_FAMILIES p = Some info" using assms(1) by auto
  obtain fams g4 where b: "decide_multi_isa E p f g = (fams, g4)"
    by (cases "decide_multi_isa E p f g")
  obtain htype g5 where c: "pick_header_type p g4 = (htype, g5)"
    by (cases "pick_header_type p g4")
  obtain ttype g6 where d: "pick_trailer_type g5 = (ttype, g6)"
    by (cases "pick_trailer_type g5")
  note ts = trailer_size_lookup [OF pick_trailer_type_cases [OF d]]
  obtain sz g7 where e: "draw g6 = (sz, g7)" by (cases "draw g6")
  have pt: "pick_total_size (config E) g6 = Inr (align_up (int sz) 256, g7)"
    using assms(2) e by (simp add: pick_total_size_def sizes_in_range_def)
  from decide_multi_isa_hd [OF b] have "fams \<noteq> []" by auto
  moreover have "0 \<le> get_trailer_size ttype" using ts by auto
  ultimately obtain secs T where
    bs: "build_sections (blob_index E) fams htype ttype (get_trailer_size ttype)
           (align_up (int sz) 256) g7 = Inr (secs, T)"
    using build_sections_props [of fams "get_trailer_size ttype" "blob_index E" htype ttype
            "align_up (int sz) 256" g7] by blast
  show ?thesis
    using info b c d ts pt bs by (simp add: generate_layout_def)
qed

lemma gen_repeat_props:
  assumes "map_of ISA_FAMILIES p \<noteq> None" and "sizes_in_range (config E)"
  shows "\<exists>ls. gen_repeat E R ms p f n seq = Inr (ls, seq + int n) \<and> length ls = n
              \<and> (\<forall>l\<in>set ls. made_by E p f l)"
proof (induction n arbitrary: seq)
  case 0 then show ?case by simp
next
  case (Suc n)
  obtain l where l: "generate_layout E (R (ms + seq)) seq (Some p) f = Inr l"
    using generate_layout_total [OF assms] by blast
  obtain ls where ls: "gen_repeat E R ms p f n (seq + 1) = Inr (ls, seq + 1 + int n)"
      "length ls = n" "\<forall>l\<in>set ls. made_by E p f l"
    using Suc [of "seq + 1"] by auto
  have "made_by E p f l" using l by (auto simp: made_by_def)
  with l ls show ?case by (simp add: add.assoc add.commute)
qed

lemma phase1_props:
  assumes cfg: "sizes_in_range (config E)"
  shows "\<forall>fam\<in>set fams. map_of ISA_FAMILIES fam \<noteq> None \<and> map_of quotas fam \<noteq> None \<Longrightarrow>
         \<exists>ls seq'. phase1 E R ms quotas fams seq = Inr (ls, seq')
           \<and> int (length ls) = sum_list (map (\<lambda>fam. int (nat (the (map_of quotas fam)))) fams)
           \<and> (\<forall>l\<in>set ls. \<exists>fam\<in>set fams. made_by E fam None l)
           \<and> (\<forall>fam\<in>set fams. 1 \<le> the (map_of quotas fam)
                 \<longrightarrow> (\<exists>l\<in>set ls. made_by E fam None l))"
proof (induction fams arbitrary: seq)
  case Nil then show ?case by simp
next
  case (Cons fam fams)
  from Cons.prems obtain q where q: "map_of quotas fam = Some q" and db: "map_of ISA_FAMILIES fam \<noteq> None"
    by auto
  obtain ls1 where ls1: "gen_repeat E R ms fam None (nat q) seq = Inr (ls1, seq + int (nat q))"
      "length ls1 = nat q" "\<forall>l\<in>set ls1. made_by E fam None l"
    using gen_repeat_props [OF db cfg] by blast
  obtain ls2 seq2 where ls2: "phase1 E R ms quotas fams (seq + int (nat q)) = Inr (ls2, seq2)"
      "int (length ls2) = sum_list (map (\<lambda>fam. int (nat (the (map_of quotas fam)))) fams)"
      "\<forall>l\<in>set ls2. \<exists>fam\<in>set fams. made_by E fam None l"
      "\<forall>fam\<in>set fams. 1 \<le> the (map_of quotas fam) \<longrightarrow> (\<exists>l\<in>set ls2. made_by E fam None l)"
    using Cons.IH [of "seq + int (nat q)"] Cons.prems by auto
  have r: "phase1 E R ms quotas (fam # fams) seq = Inr (ls1 @ ls2, seq2)"
    using q ls1(1) ls2(1) by simp
  have one: "1 \<le> q \<Longrightarrow> \<exists>l\<in>set (ls1 @ ls2). made_by E fam None l"
  proof -
    assume "1 \<le> q"
    then have "ls1 \<noteq> []" using ls1(2) by auto
    then obtain l where "l \<in> set ls1" by (cases ls1) auto
    with ls1(3) show ?thesis by auto
  qed
  show ?case
    unfolding r using q ls1(2,3) ls2(2,3,4) one by auto
qed

subsection \<open>The shuffle\<close>

lemma mset_shuffle_from: "i < length xs \<Longrightarrow> mset (shuffle_from i xs g) = mset xs"
proof (induction i arbitrary: xs g)
  case 0 then show ?case by simp
next
  case (Suc i)
  obtain j g' where r: "randbelow (Suc (Suc i)) g = (j, g')" by (cases "randbelow (Suc (Suc i)) g")
  have j: "j < Suc (Suc i)" using randbelow_less [OF _ r] by simp
  then have jl: "j < length xs" using Suc.prems by simp
  let ?ys = "xs[Suc i := xs ! j, j := xs ! Suc i]"
  have "mset ?ys = mset xs" using mset_swap [OF jl Suc.prems] .
  moreover have "mset (shuffle_from i ?ys g') = mset ?ys"
    using Suc.IH [of ?ys g'] Suc.prems by simp
  ultimately show ?case using r by simp
qed

lemma mset_shuffle: "mset (shuffle xs g) = mset xs"
proof (cases xs)
  case Nil then show ?thesis by (simp add: shuffle_def)
next
  case (Cons x rest)
  then show ?thesis using mset_shuffle_from [of "length xs - 1" xs g] by (simp add: shuffle_def)
qed

lemma set_shuffle: "set (shuffle xs g) = set xs"
  using mset_shuffle [of xs g] by (metis set_mset_mset)

lemma length_shuffle: "length (shuffle xs g) = length xs"
  using mset_shuffle [of xs g] by (metis size_mset)

subsection \<open>Labels\<close>

lemma split_on_no_sep: "c \<notin> set x \<Longrightarrow> split_on c x = [x]"
  by (induction x) auto

lemma split_on_append_sep: "c \<notin> set x \<Longrightarrow> split_on c (x @ c # rest) = x # split_on c rest"
  by (induction x) auto

lemma split_join:
  "xs \<noteq> [] \<Longrightarrow> \<forall>x\<in>set xs. c \<notin> set x \<Longrightarrow> split_on c (join [c] xs) = xs"
proof (induction "[c]" xs rule: join.induct)
  case 1 then show ?case by simp
next
  case (2 x) then show ?case by (simp add: split_on_no_sep)
next
  case (3 x y ys)
  then show ?case by (simp add: split_on_append_sep)
qed

lemma sort_cong_mset: "mset xs = mset ys \<Longrightarrow> sort xs = sort (ys :: string list)"
  by (rule properties_for_sort) simp_all

lemma label_roundtrip:
  assumes good: "good_families l"
    and l': "all_isa_families l' = primary_isa l # filter (\<lambda>f. f \<noteq> primary_isa l) (split_on CHR ''+'' (isa_label l))"
  shows "isa_label l' = isa_label l"
proof -
  let ?p = "primary_isa l"
  let ?fams = "all_isa_families l"
  obtain rest where fams: "?fams = ?p # rest" and nin: "?p \<notin> set rest"
    using good by (auto simp: good_families_def)
  have ne: "sort ?fams \<noteq> []" using fams by (metis length_sort length_0_conv list.distinct(1))
  have nosep: "\<forall>x\<in>set (sort ?fams). CHR ''+'' \<notin> set x"
    using good by (simp add: good_families_def)
  have sp: "split_on CHR ''+'' (isa_label l) = sort ?fams"
    unfolding isa_label_def using split_join [OF ne nosep] by simp
  have "mset (?p # filter (\<lambda>f. f \<noteq> ?p) (sort ?fams)) = mset ?fams"
    using fams nin by (simp add: filter_mset_eq_conv) (metis (mono_tags, lifting) count_mset_0_iff filter_mset_cong filter_mset_True multiset_eq_iff count_filter_mset)
  then have "sort (all_isa_families l') = sort ?fams"
    unfolding l' sp by (rule sort_cong_mset)
  then show ?thesis by (simp add: isa_label_def)
qed

subsection \<open>The engine and the families it picks\<close>

lemma names_no_plus: "list_all (\<lambda>kv. CHR ''+'' \<notin> set (fst kv)) ISA_FAMILIES"
  by code_simp

lemma known_no_plus: "map_of ISA_FAMILIES f \<noteq> None \<Longrightarrow> CHR ''+'' \<notin> set f"
proof -
  assume "map_of ISA_FAMILIES f \<noteq> None"
  then obtain i where "map_of ISA_FAMILIES f = Some i" by auto
  then have "(f, i) \<in> set ISA_FAMILIES" by (rule map_of_SomeD)
  with names_no_plus show ?thesis by (auto simp: list_all_iff)
qed

lemma affinity_table:
  "list_all (\<lambda>pa. list_all (\<lambda>fw. fst fw \<noteq> fst pa \<and> map_of ISA_FAMILIES (fst fw) \<noteq> None) (snd pa))
     MULTI_ISA_AFFINITY"
  by code_simp

lemma affinity_known:
  assumes "map_of MULTI_ISA_AFFINITY p = Some a" and "fw \<in> set a"
  shows "fst fw \<noteq> p \<and> map_of ISA_FAMILIES (fst fw) \<noteq> None"
proof -
  have "(p, a) \<in> set MULTI_ISA_AFFINITY" using assms(1) by (rule map_of_SomeD)
  with affinity_table
  have "list_all (\<lambda>fw. fst fw \<noteq> fst (p, a) \<and> map_of ISA_FAMILIES (fst fw) \<noteq> None) (snd (p, a))"
    unfolding list_all_iff by blast
  with assms(2) show ?thesis by (simp add: list_all_iff)
qed

lemma build_family_weights_props:
  assumes "distinct (map fst idx)"
  shows "distinct (map fst (build_family_weights idx))"
    and "\<forall>fw\<in>set (build_family_weights idx).
           map_of ISA_FAMILIES (fst fw) \<noteq> None \<and> 0 < snd fw \<and> snd fw = blob_count idx (fst fw)"
    and "\<And>fam. map_of ISA_FAMILIES fam \<noteq> None \<Longrightarrow> 0 < blob_count idx fam \<Longrightarrow>
           fam \<in> fst ` set (build_family_weights idx)"
proof -
  have d: "distinct (families idx)"
    using assms by (simp add: families_def)
  have gen: "\<And>fs. distinct fs \<Longrightarrow>
      distinct (map fst (concat (map (\<lambda>fam. if map_of ISA_FAMILIES fam \<noteq> None \<and> blob_count idx fam > 0
                         then [(fam, blob_count idx fam)] else []) fs)))
      \<and> fst ` set (concat (map (\<lambda>fam. if map_of ISA_FAMILIES fam \<noteq> None \<and> blob_count idx fam > 0
                         then [(fam, blob_count idx fam)] else []) fs)) \<subseteq> set fs"
  proof -
    fix fs :: "string list"
    show "distinct fs \<Longrightarrow>
      distinct (map fst (concat (map (\<lambda>fam. if map_of ISA_FAMILIES fam \<noteq> None \<and> blob_count idx fam > 0
                         then [(fam, blob_count idx fam)] else []) fs)))
      \<and> fst ` set (concat (map (\<lambda>fam. if map_of ISA_FAMILIES fam \<noteq> None \<and> blob_count idx fam > 0
                         then [(fam, blob_count idx fam)] else []) fs)) \<subseteq> set fs"
      by (induction fs) auto
  qed
  show "distinct (map fst (build_family_weights idx))"
    unfolding build_family_weights_def using gen [OF d] by simp
  show "\<forall>fw\<in>set (build_family_weights idx).
           map_of ISA_FAMILIES (fst fw) \<noteq> None \<and> 0 < snd fw \<and> snd fw = blob_count idx (fst fw)"
    by (auto simp: build_family_weights_def split: if_splits)
  fix fam
  assume k: "map_of ISA_FAMILIES fam \<noteq> None" and b: "0 < blob_count idx fam"
  have "fam \<in> set (families idx)"
  proof -
    from b have "map_of idx fam \<noteq> None"
      by (auto simp: blob_count_def get_blobs_def split: option.splits)
    then have "fam \<in> fst ` set idx" by (simp add: map_of_eq_None_iff)
    then show ?thesis by (simp add: families_def)
  qed
  with k b show "fam \<in> fst ` set (build_family_weights idx)"
    by (force simp: build_family_weights_def)
qed

lemma engine_of_props:
  assumes "engine_of idx cfg E"
  shows "blob_index E = idx" and "config E = cfg"
    and "family_weights E = build_family_weights idx" and "family_weights E \<noteq> []"
  using assms by (auto simp: engine_of_def new_LayoutEngine_def split: if_splits)

lemma pick_secondaries_loop_subset:
  "pool \<noteq> [] \<Longrightarrow> pick_secondaries_loop n pool g = (secs, g') \<Longrightarrow>
     set secs \<subseteq> fst ` set pool"
proof (induction n arbitrary: pool g secs g')
  case 0 then show ?case by simp
next
  case (Suc n)
  obtain pick g1 where w: "weighted_choice pool g = (pick, g1)" by (cases "weighted_choice pool g")
  have pk: "pick \<in> fst ` set pool" using weighted_choice_in_set [OF Suc.prems(1) w] .
  let ?pool' = "filter (\<lambda>fw. fst fw \<noteq> pick) pool"
  show ?case
  proof (cases "?pool' = []")
    case True
    with Suc.prems(2) w have "secs = [pick]" by (simp add: Let_def)
    with pk show ?thesis by simp
  next
    case False
    obtain rest g2 where r: "pick_secondaries_loop n ?pool' g1 = (rest, g2)"
      by (cases "pick_secondaries_loop n ?pool' g1")
    from Suc.IH [OF False r] have "set rest \<subseteq> fst ` set pool" by auto
    moreover have "secs = pick # rest" using Suc.prems(2) w False r by (simp add: Let_def)
    ultimately show ?thesis using pk by auto
  qed
qed

lemma pick_secondary_isas_props:
  assumes known: "\<forall>fw\<in>set (family_weights E). map_of ISA_FAMILIES (fst fw) \<noteq> None"
    and p: "pick_secondary_isas E primary g = (secs, g')"
  shows "\<forall>s\<in>set secs. s \<noteq> primary \<and> map_of ISA_FAMILIES s \<noteq> None"
proof -
  let ?aff = "case map_of MULTI_ISA_AFFINITY primary of None \<Rightarrow> [] | Some a \<Rightarrow> a"
  let ?avail = "filter (\<lambda>fw. blob_count (blob_index E) (fst fw) > 0) ?aff"
  let ?fallback = "map (\<lambda>fw. (fst fw, 2::nat)) (filter (\<lambda>fw. fst fw \<noteq> primary) (family_weights E))"
  let ?pool = "if ?avail = [] then ?fallback else ?avail"
  have pool: "\<forall>fw\<in>set ?pool. fst fw \<noteq> primary \<and> map_of ISA_FAMILIES (fst fw) \<noteq> None"
  proof (cases "?avail = []")
    case True
    then show ?thesis using known by auto
  next
    case False
    then obtain a where a: "map_of MULTI_ISA_AFFINITY primary = Some a"
      by (cases "map_of MULTI_ISA_AFFINITY primary") auto
    then show ?thesis using False affinity_known [OF a] by auto
  qed
  show ?thesis
  proof (cases "?avail = [] \<and> ?fallback = []")
    case True
    with p have "secs = []" by (simp add: pick_secondary_isas_def Let_def)
    then show ?thesis by simp
  next
    case False
    then have ne: "?pool \<noteq> []" by auto
    obtain cnt g1 where c: "choice [1, 1, 2 :: nat] g = (cnt, g1)" by (cases "choice [1, 1, 2 :: nat] g")
    have "pick_secondaries_loop (min cnt (length ?pool)) ?pool g1 = (secs, g')"
      using p False c by (auto simp: pick_secondary_isas_def Let_def split: if_splits)
    from pick_secondaries_loop_subset [OF ne this] pool show ?thesis by blast
  qed
qed

lemma made_by_good:
  assumes known: "\<forall>fw\<in>set (family_weights E). map_of ISA_FAMILIES (fst fw) \<noteq> None"
    and m: "made_by E p None l"
  shows "good_families l" and "primary_isa l = p" and "map_of ISA_FAMILIES p \<noteq> None"
proof -
  obtain g seq where gl: "generate_layout E g seq (Some p) None = Inr l"
    using m by (auto simp: made_by_def)
  from gl have "good_families l \<and> primary_isa l = p \<and> map_of ISA_FAMILIES p \<noteq> None"
  proof (cases rule: generate_layout_cases)
    case (1 primary g1 info fams g4 htype g5 ttype g6 total0 g7 secs T)
    have pp: "primary = p" "g1 = g" using 1(1) by auto
    have kp: "map_of ISA_FAMILIES p \<noteq> None" using 1(2) pp by simp
    obtain k g2 where r: "random53 g = (k, g2)" by (cases "random53 g")
    have "\<exists>rest. fams = p # rest \<and> (\<forall>s\<in>set rest. s \<noteq> p \<and> map_of ISA_FAMILIES s \<noteq> None)"
    proof (cases "k < multi_isa_probability (config E)")
      case False
      with 1(3) pp r show ?thesis by (auto simp: decide_multi_isa_def)
    next
      case True
      obtain ss g3 where ps: "pick_secondary_isas E p g2 = (ss, g3)"
        by (cases "pick_secondary_isas E p g2")
      from 1(3) pp r True ps have "fams = p # ss" by (auto simp: decide_multi_isa_def)
      with pick_secondary_isas_props [OF known ps] show ?thesis by simp
    qed
    then obtain rest where f: "fams = p # rest"
      and rest: "\<forall>s\<in>set rest. s \<noteq> p \<and> map_of ISA_FAMILIES s \<noteq> None" by auto
    have "good_families l"
      unfolding good_families_def 1(8) using f rest kp pp known_no_plus by auto
    moreover have "primary_isa l = p" unfolding 1(8) using pp by simp
    ultimately show ?thesis using kp by simp
  qed
  then show "good_families l" and "primary_isa l = p" and "map_of ISA_FAMILIES p \<noteq> None" by auto
qed

subsection \<open>Counting the combinations\<close>

lemma map_of_dict_set: "map_of (dict_set d k v) = (map_of d)(k \<mapsto> v)"
  by (induction d k v rule: dict_set.induct) (auto simp: fun_eq_iff)

lemma keys_dict_set: "fst ` set (dict_set d k v) = insert k (fst ` set d)"
  by (induction d k v rule: dict_set.induct) auto

lemma distinct_dict_set: "distinct (map fst d) \<Longrightarrow> distinct (map fst (dict_set d k v))"
proof (induction d k v rule: dict_set.induct)
  case (1 k v) then show ?case by simp
next
  case (2 k' x rest k v)
  then show ?case using keys_dict_set [of rest k v] by (auto simp: image_iff)
qed

lemma map_of_setdefault:
  "map_of (setdefault d k v) = (case map_of d k of None \<Rightarrow> (map_of d)(k \<mapsto> v) | Some x \<Rightarrow> map_of d)"
  by (auto simp: setdefault_def fun_eq_iff map_add_def split: option.splits)

lemma combos_inv_step:
  assumes "combos_inv seen acc"
  shows "combos_inv (seen @ [l])
           (dict_set (fst acc) (isa_label l)
              ((case map_of (fst acc) (isa_label l) of None \<Rightarrow> 0 | Some c \<Rightarrow> c) + 1),
            setdefault (snd acc) (isa_label l) (primary_isa l))"
  unfolding combos_inv_def
proof
  fix lab
  note a = assms [unfolded combos_inv_def, rule_format, of lab]
  note b = assms [unfolded combos_inv_def, rule_format, of "isa_label l"]
  show "if lab \<in> isa_label ` set (seen @ [l])
        then map_of (fst (dict_set (fst acc) (isa_label l)
                 ((case map_of (fst acc) (isa_label l) of None \<Rightarrow> 0 | Some c \<Rightarrow> c) + 1),
               setdefault (snd acc) (isa_label l) (primary_isa l))) lab
             = Some (int (length (filter (\<lambda>l. isa_label l = lab) (seen @ [l]))))
           \<and> (\<exists>l'\<in>set (seen @ [l]). isa_label l' = lab
                \<and> map_of (snd (dict_set (fst acc) (isa_label l)
                 ((case map_of (fst acc) (isa_label l) of None \<Rightarrow> 0 | Some c \<Rightarrow> c) + 1),
               setdefault (snd acc) (isa_label l) (primary_isa l))) lab = Some (primary_isa l'))
        else map_of (fst (dict_set (fst acc) (isa_label l)
                 ((case map_of (fst acc) (isa_label l) of None \<Rightarrow> 0 | Some c \<Rightarrow> c) + 1),
               setdefault (snd acc) (isa_label l) (primary_isa l))) lab = None
           \<and> map_of (snd (dict_set (fst acc) (isa_label l)
                 ((case map_of (fst acc) (isa_label l) of None \<Rightarrow> 0 | Some c \<Rightarrow> c) + 1),
               setdefault (snd acc) (isa_label l) (primary_isa l))) lab = None"
  proof (cases "lab = isa_label l")
    case True
    show ?thesis
    proof (cases "isa_label l \<in> isa_label ` set seen")
      case True
      with b \<open>lab = isa_label l\<close> show ?thesis
        by (auto simp: map_of_dict_set map_of_setdefault)
    next
      case False
      then have "filter (\<lambda>la. isa_label la = isa_label l) seen = []"
        unfolding filter_empty_conv by (metis imageI)
      with False b \<open>lab = isa_label l\<close> show ?thesis
        by (auto simp: map_of_dict_set map_of_setdefault)
    qed
  next
    case False
    show ?thesis
    proof (cases "lab \<in> isa_label ` set seen")
      case True
      with a False show ?thesis
        by (auto simp: map_of_dict_set map_of_setdefault split: option.splits)
    next
      case f2: False
      with a False show ?thesis
        by (auto simp: map_of_dict_set map_of_setdefault split: option.splits)
    qed
  qed
qed

lemma combos_inv_count_combos:
  "combos_inv seen acc \<Longrightarrow> combos_inv (seen @ ls) (count_combos ls acc)"
proof (induction ls arbitrary: seen acc)
  case Nil then show ?case by simp
next
  case (Cons l ls)
  from Cons.IH [OF combos_inv_step [OF Cons.prems, of l]] show ?case
    by (simp add: Let_def)
qed

lemma count_combos_props: "combos_inv ls (count_combos ls ([], []))"
  using combos_inv_count_combos [of "[]" "([], [])" ls] by (simp add: combos_inv_def)

lemma count_combos_keys:
  "fst ` set (fst (count_combos ls ([], []))) = isa_label ` set ls"
proof -
  have "dom (map_of (fst (count_combos ls ([], [])))) = isa_label ` set ls"
    using count_combos_props [of ls, unfolded combos_inv_def]
    by (auto simp: dom_def split: if_splits)
  then show ?thesis by (simp add: dom_map_of_conv_image_fst)
qed

subsection \<open>\<open>generate_batch\<close>\<close>

lemma forced_label:
  assumes known: "\<forall>fw\<in>set (family_weights E). map_of ISA_FAMILIES (fst fw) \<noteq> None"
    and good: "good_families l0"
    and m: "made_by E (primary_isa l0)
              (Some (filter (\<lambda>f. f \<noteq> primary_isa l0) (split_on CHR ''+'' (isa_label l0)))) l"
  shows "isa_label l = isa_label l0"
proof -
  from m obtain g seq where
    g: "generate_layout E g seq (Some (primary_isa l0))
          (Some (filter (\<lambda>f. f \<noteq> primary_isa l0) (split_on CHR ''+'' (isa_label l0)))) = Inr l"
    by (auto simp: made_by_def)
  from generate_layout_props [OF g]
  have "all_isa_families l = primary_isa l # filter (\<lambda>f. f \<noteq> primary_isa l0) (split_on CHR ''+'' (isa_label l0))"
    and "primary_isa l = primary_isa l0" by auto
  then have "all_isa_families l = primary_isa l0 # filter (\<lambda>f. f \<noteq> primary_isa l0) (split_on CHR ''+'' (isa_label l0))"
    by simp
  from label_roundtrip [OF good this] show ?thesis .
qed

lemma phase2_props:
  assumes cfg: "sizes_in_range (config E)"
    and known: "\<forall>fw\<in>set (family_weights E). map_of ISA_FAMILIES (fst fw) \<noteq> None"
  shows "\<forall>lab\<in>set labels. \<exists>c l0. map_of cc lab = Some c \<and> good_families l0 \<and> isa_label l0 = lab
            \<and> map_of cp lab = Some (primary_isa l0) \<and> map_of ISA_FAMILIES (primary_isa l0) \<noteq> None \<Longrightarrow>
         \<exists>ls seq'. phase2 E R ms cc cp labels seq = Inr (ls, seq')
           \<and> (\<forall>l\<in>set ls. isa_label l \<in> set labels)
           \<and> (\<forall>lab\<in>set labels. min_images_per_combo (config E) - the (map_of cc lab)
                 \<le> int (length (filter (\<lambda>l. isa_label l = lab) ls)))"
proof (induction labels arbitrary: seq)
  case Nil then show ?case by simp
next
  case (Cons lab labels)
  from Cons.prems obtain c l0 where c: "map_of cc lab = Some c" and good: "good_families l0"
    and lab: "isa_label l0 = lab" and cp: "map_of cp lab = Some (primary_isa l0)"
    and kn: "map_of ISA_FAMILIES (primary_isa l0) \<noteq> None" by auto
  from Cons.prems have rest: "\<forall>lab\<in>set labels. \<exists>c l0. map_of cc lab = Some c \<and> good_families l0 \<and> isa_label l0 = lab
            \<and> map_of cp lab = Some (primary_isa l0) \<and> map_of ISA_FAMILIES (primary_isa l0) \<noteq> None"
    by simp
  define needed where "needed = min_images_per_combo (config E) - c"
  show ?case
  proof (cases "needed \<le> 0")
    case True
    from Cons.IH [OF rest, of seq] obtain ls seq' where
      p: "phase2 E R ms cc cp labels seq = Inr (ls, seq')"
      and a: "\<forall>l\<in>set ls. isa_label l \<in> set labels"
      and b: "\<forall>lab\<in>set labels. min_images_per_combo (config E) - the (map_of cc lab)
                 \<le> int (length (filter (\<lambda>l. isa_label l = lab) ls))" by blast
    have "phase2 E R ms cc cp (lab # labels) seq = Inr (ls, seq')"
      using True p c by (simp add: needed_def Let_def)
    moreover have "min_images_per_combo (config E) - the (map_of cc lab)
                 \<le> int (length (filter (\<lambda>l. isa_label l = lab) ls))"
      using True c by (simp add: needed_def)
    ultimately show ?thesis using a b by auto
  next
    case False
    let ?secs = "filter (\<lambda>f. f \<noteq> primary_isa l0) (split_on CHR ''+'' lab)"
    from gen_repeat_props [OF kn cfg, of R ms "Some ?secs" "nat needed" seq]
    obtain ls1 where g: "gen_repeat E R ms (primary_isa l0) (Some ?secs) (nat needed) seq
                           = Inr (ls1, seq + int (nat needed))"
      and len: "length ls1 = nat needed"
      and mb: "\<forall>l\<in>set ls1. made_by E (primary_isa l0) (Some ?secs) l" by blast
    have labs: "\<forall>l\<in>set ls1. isa_label l = lab"
      using mb forced_label [OF known good] lab by auto
    then have all1: "filter (\<lambda>l. isa_label l = lab) ls1 = ls1" by (simp add: filter_id_conv)
    from Cons.IH [OF rest, of "seq + int (nat needed)"] obtain ls seq' where
      p: "phase2 E R ms cc cp labels (seq + int (nat needed)) = Inr (ls, seq')"
      and a: "\<forall>l\<in>set ls. isa_label l \<in> set labels"
      and b: "\<forall>lab\<in>set labels. min_images_per_combo (config E) - the (map_of cc lab)
                 \<le> int (length (filter (\<lambda>l. isa_label l = lab) ls))" by blast
    have r: "phase2 E R ms cc cp (lab # labels) seq = Inr (ls1 @ ls, seq')"
      using False p c cp g by (simp add: needed_def Let_def)
    have h: "min_images_per_combo (config E) - the (map_of cc lab)
                 \<le> int (length (filter (\<lambda>l. isa_label l = lab) (ls1 @ ls)))"
      using c len all1 by (simp add: needed_def)
    have t: "\<forall>lab'\<in>set labels. min_images_per_combo (config E) - the (map_of cc lab')
                 \<le> int (length (filter (\<lambda>l. isa_label l = lab') (ls1 @ ls)))"
      using b by fastforce
    show ?thesis using r labs a h t by auto
  qed
qed

text \<open>What the two phases have produced when they return.\<close>

lemma gen_repeat_made:
  "gen_repeat E R ms p f n seq = Inr (ls, seq') \<Longrightarrow>
     length ls = n \<and> (\<forall>l\<in>set ls. made_by E p f l)"
proof (induction n arbitrary: seq ls)
  case 0 then show ?case by simp
next
  case (Suc n)
  from Suc.prems obtain l rest where
    l: "generate_layout E (R (ms + seq)) seq (Some p) f = Inr l"
    and r: "gen_repeat E R ms p f n (seq + 1) = Inr (rest, seq')"
    and ls: "ls = l # rest"
    by (auto split: sum.splits prod.splits)
  have "made_by E p f l" using l by (auto simp: made_by_def)
  with Suc.IH [OF r] ls show ?case by simp
qed

lemma phase1_made:
  "phase1 E R ms quotas fams seq = Inr (ls, seq') \<Longrightarrow>
     int (length ls) = sum_list (map (\<lambda>fam. int (nat (the (map_of quotas fam)))) fams)
     \<and> (\<forall>l\<in>set ls. \<exists>fam\<in>set fams. made_by E fam None l)
     \<and> (\<forall>fam\<in>set fams. 1 \<le> the (map_of quotas fam)
           \<longrightarrow> (\<exists>l\<in>set ls. made_by E fam None l))"
proof (induction fams arbitrary: seq ls)
  case Nil then show ?case by simp
next
  case (Cons fam fams)
  from Cons.prems obtain q ls1 seq1 ls2 where
    q: "map_of quotas fam = Some q"
    and g: "gen_repeat E R ms fam None (nat q) seq = Inr (ls1, seq1)"
    and p: "phase1 E R ms quotas fams seq1 = Inr (ls2, seq')"
    and ls: "ls = ls1 @ ls2"
    by (auto split: option.splits sum.splits prod.splits)
  note m1 = gen_repeat_made [OF g]
  note ih = Cons.IH [OF p]
  have one: "1 \<le> q \<Longrightarrow> \<exists>l\<in>set (ls1 @ ls2). made_by E fam None l"
  proof -
    assume "1 \<le> q"
    then have "ls1 \<noteq> []" using m1 by auto
    then obtain l where "l \<in> set ls1" by (cases ls1) auto
    with m1 show ?thesis by auto
  qed
  show ?case
    unfolding ls using q m1 ih one by auto
qed

lemma phase2_made:
  assumes known: "\<forall>fw\<in>set (family_weights E). map_of ISA_FAMILIES (fst fw) \<noteq> None"
  shows "\<forall>lab\<in>set labels. \<exists>l0. good_families l0 \<and> isa_label l0 = lab
            \<and> map_of cp lab = Some (primary_isa l0) \<Longrightarrow>
         phase2 E R ms cc cp labels seq = Inr (ls, seq') \<Longrightarrow>
           (\<forall>l\<in>set ls. isa_label l \<in> set labels)
           \<and> (\<forall>lab\<in>set labels. min_images_per_combo (config E) - the (map_of cc lab)
                 \<le> int (length (filter (\<lambda>l. isa_label l = lab) ls)))"
proof (induction labels arbitrary: seq ls)
  case Nil then show ?case by simp
next
  case (Cons lab labels)
  from Cons.prems(1) obtain l0 where good: "good_families l0"
    and lab: "isa_label l0 = lab" and cp: "map_of cp lab = Some (primary_isa l0)" by auto
  from Cons.prems(1) have rest: "\<forall>lab\<in>set labels. \<exists>l0. good_families l0 \<and> isa_label l0 = lab
            \<and> map_of cp lab = Some (primary_isa l0)" by simp
  from Cons.prems(2) obtain c where c: "map_of cc lab = Some c"
    by (auto split: option.splits)
  define needed where "needed = min_images_per_combo (config E) - c"
  show ?case
  proof (cases "needed \<le> 0")
    case True
    have p: "phase2 E R ms cc cp labels seq = Inr (ls, seq')"
      using True Cons.prems(2) c by (simp add: needed_def Let_def)
    note ih = Cons.IH [OF rest p]
    have "min_images_per_combo (config E) - the (map_of cc lab)
                 \<le> int (length (filter (\<lambda>l. isa_label l = lab) ls))"
      using True c by (simp add: needed_def)
    with ih show ?thesis by auto
  next
    case False
    let ?secs = "filter (\<lambda>f. f \<noteq> primary_isa l0) (split_on CHR ''+'' lab)"
    from Cons.prems(2) False c cp obtain ls1 seq1 ls2 where
      g: "gen_repeat E R ms (primary_isa l0) (Some ?secs) (nat needed) seq = Inr (ls1, seq1)"
      and p: "phase2 E R ms cc cp labels seq1 = Inr (ls2, seq')"
      and ls: "ls = ls1 @ ls2"
      by (auto simp: needed_def Let_def split: sum.splits prod.splits)
    note m1 = gen_repeat_made [OF g]
    note ih = Cons.IH [OF rest p]
    have labs: "\<forall>l\<in>set ls1. isa_label l = lab"
      using m1 forced_label [OF known good] lab by auto
    then have all1: "filter (\<lambda>l. isa_label l = lab) ls1 = ls1" by (simp add: filter_id_conv)
    have h: "min_images_per_combo (config E) - the (map_of cc lab)
                 \<le> int (length (filter (\<lambda>l. isa_label l = lab) (ls1 @ ls2)))"
      using c m1 all1 by (simp add: needed_def)
    have t: "\<forall>lab'\<in>set labels. min_images_per_combo (config E) - the (map_of cc lab')
                 \<le> int (length (filter (\<lambda>l. isa_label l = lab') (ls1 @ ls2)))"
      using ih by fastforce
    show ?thesis unfolding ls using labs ih h t by auto
  qed
qed

lemma map_the_map_of:
  "distinct (map fst q) \<Longrightarrow> map (\<lambda>k. the (map_of q k)) (map fst q) = map snd q"
proof (induction q)
  case Nil then show ?case by simp
next
  case (Cons a q)
  have "map (\<lambda>k. the (map_of (a # q) k)) (map fst q) = map (\<lambda>k. the (map_of q k)) (map fst q)"
    using Cons.prems by (intro map_cong) (auto simp: image_iff)
  then show ?case using Cons by simp
qed

lemma quota_sum:
  assumes d: "distinct (map fst q)" and ok: "quotas_ok fams 1 q"
  shows "sum_list (map (\<lambda>fam. int (nat (the (map_of q fam)))) fams) = sum_list (map snd q)"
proof -
  from ok have f: "map fst q = fams" and ge: "list_all (\<lambda>kv. 1 \<le> snd kv) q"
    by (auto simp: quotas_ok_def)
  have "map (\<lambda>fam. int (nat (the (map_of q fam)))) fams
          = map (\<lambda>v. int (nat v)) (map (\<lambda>k. the (map_of q k)) (map fst q))"
    by (simp add: f [symmetric] comp_def)
  also have "\<dots> = map (\<lambda>v. int (nat v)) (map snd q)" by (simp only: map_the_map_of [OF d])
  also have "\<dots> = map snd q" using ge by (induction q) auto
  finally show ?thesis by simp
qed

lemma quota_lookup:
  assumes ok: "quotas_ok fams 1 q" and "fam \<in> set fams"
  shows "map_of q fam \<noteq> None" and "1 \<le> the (map_of q fam)"
proof -
  from ok have f: "map fst q = fams" and ge: "list_all (\<lambda>kv. 1 \<le> snd kv) q"
    by (auto simp: quotas_ok_def)
  from assms(2) f have "fam \<in> fst ` set q" by (metis set_map)
  then show a: "map_of q fam \<noteq> None" by (simp add: map_of_eq_None_iff)
  then obtain v where v: "map_of q fam = Some v" by auto
  then have "(fam, v) \<in> set q" by (rule map_of_SomeD)
  with ge have "1 \<le> v" by (auto simp: list_all_iff)
  with v show "1 \<le> the (map_of q fam)" by simp
qed

lemma generate_batch_props:
  assumes eng: "engine_of idx cfg E" and cfg: "sizes_in_range cfg"
  shows "\<exists>ls1 ls2. generate_batch E R cnt ms = Inr (shuffle (ls1 @ ls2) (R ms))
     \<and> cnt \<le> int (length ls1) \<and> int (length (family_weights E)) \<le> int (length ls1)
     \<and> (\<forall>fam\<in>fst ` set (family_weights E). \<exists>l\<in>set ls1. primary_isa l = fam)
     \<and> (\<forall>l\<in>set (ls1 @ ls2). min_images_per_combo cfg
            \<le> int (length (filter (\<lambda>l'. isa_label l' = isa_label l) (ls1 @ ls2))))"
proof -
  let ?fw = "family_weights E"
  let ?fams = "map fst ?fw"
  let ?q = "phase1_quotas ?fw cnt"
  from engine_of_props [OF eng] have E: "blob_index E = idx" "config E = cfg"
    "?fw = build_family_weights idx" "?fw \<noteq> []" by auto
  from eng have di: "distinct (map fst idx)" by (simp add: engine_of_def)
  from build_family_weights_props [OF di] E(3)
  have dfw: "distinct ?fams"
    and known: "\<forall>fw\<in>set ?fw. map_of ISA_FAMILIES (fst fw) \<noteq> None"
    and pos: "list_all (\<lambda>kv. 0 < snd kv) ?fw"
    by (auto simp: list_all_iff)
  from phase1_quotas_props [OF dfw E(4) pos, of cnt]
  have qok: "quotas_ok ?fams 1 ?q" and s1: "cnt \<le> sum_list (map snd ?q)"
    and s2: "int (length ?fw) \<le> sum_list (map snd ?q)" by auto
  from qok dfw have dq: "distinct (map fst ?q)" by (simp add: quotas_ok_def)
  have cfgE: "sizes_in_range (config E)" using cfg E(2) by simp
  have pre1: "\<forall>fam\<in>set ?fams. map_of ISA_FAMILIES fam \<noteq> None \<and> map_of ?q fam \<noteq> None"
    using known quota_lookup(1) [OF qok] by auto
  from phase1_props [OF cfgE pre1, of R ms 0] obtain ls1 seq1 where
    p1: "phase1 E R ms ?q ?fams 0 = Inr (ls1, seq1)"
    and len1: "int (length ls1) = sum_list (map (\<lambda>fam. int (nat (the (map_of ?q fam)))) ?fams)"
    and mb1: "\<forall>l\<in>set ls1. \<exists>fam\<in>set ?fams. made_by E fam None l"
    and cov: "\<forall>fam\<in>set ?fams. 1 \<le> the (map_of ?q fam) \<longrightarrow> (\<exists>l\<in>set ls1. made_by E fam None l)"
    by blast
  have len1': "int (length ls1) = sum_list (map snd ?q)"
    using len1 quota_sum [OF dq qok] by simp
  have good1: "\<forall>l\<in>set ls1. good_families l \<and> map_of ISA_FAMILIES (primary_isa l) \<noteq> None"
    using mb1 made_by_good [OF known] by blast
  have cov': "\<forall>fam\<in>fst ` set ?fw. \<exists>l\<in>set ls1. primary_isa l = fam"
  proof
    fix fam assume "fam \<in> fst ` set ?fw"
    then have m: "fam \<in> set ?fams" by simp
    from quota_lookup(2) [OF qok m] cov m obtain l where "l \<in> set ls1" "made_by E fam None l"
      by blast
    with made_by_good(2) [OF known] show "\<exists>l\<in>set ls1. primary_isa l = fam" by blast
  qed
  define cc where "cc = count_combos ls1 ([], [])"
  have inv: "combos_inv ls1 cc" unfolding cc_def by (rule count_combos_props)
  have keys: "fst ` set (fst cc) = isa_label ` set ls1" unfolding cc_def by (rule count_combos_keys)
  have labs: "set (sort (map fst (fst cc))) = isa_label ` set ls1" using keys by simp
  have cnt1: "\<And>lab. lab \<in> isa_label ` set ls1 \<Longrightarrow>
     map_of (fst cc) lab = Some (int (length (filter (\<lambda>l. isa_label l = lab) ls1)))"
    using inv [unfolded combos_inv_def] by (metis (no_types, lifting))
  have pre2: "\<forall>lab\<in>set (sort (map fst (fst cc))). \<exists>c l0. map_of (fst cc) lab = Some c \<and> good_families l0
            \<and> isa_label l0 = lab \<and> map_of (snd cc) lab = Some (primary_isa l0)
            \<and> map_of ISA_FAMILIES (primary_isa l0) \<noteq> None"
  proof
    fix lab assume "lab \<in> set (sort (map fst (fst cc)))"
    with labs have m: "lab \<in> isa_label ` set ls1" by simp
    from inv [unfolded combos_inv_def, rule_format, of lab] m
    obtain l where l: "l \<in> set ls1" "isa_label l = lab" "map_of (snd cc) lab = Some (primary_isa l)"
      by auto
    with good1 cnt1 [OF m] show "\<exists>c l0. map_of (fst cc) lab = Some c \<and> good_families l0
            \<and> isa_label l0 = lab \<and> map_of (snd cc) lab = Some (primary_isa l0)
            \<and> map_of ISA_FAMILIES (primary_isa l0) \<noteq> None" by blast
  qed
  from phase2_props [OF cfgE known pre2, of R ms seq1] obtain ls2 seq2 where
    p2: "phase2 E R ms (fst cc) (snd cc) (sort (map fst (fst cc))) seq1 = Inr (ls2, seq2)"
    and lab2: "\<forall>l\<in>set ls2. isa_label l \<in> set (sort (map fst (fst cc)))"
    and need: "\<forall>lab\<in>set (sort (map fst (fst cc))). min_images_per_combo (config E) - the (map_of (fst cc) lab)
                 \<le> int (length (filter (\<lambda>l. isa_label l = lab) ls2))" by blast
  have res: "generate_batch E R cnt ms = Inr (shuffle (ls1 @ ls2) (R ms))"
    using p1 p2 E(4) by (simp add: generate_batch_def Let_def cc_def)
  have floor: "\<forall>l\<in>set (ls1 @ ls2). min_images_per_combo cfg
            \<le> int (length (filter (\<lambda>l'. isa_label l' = isa_label l) (ls1 @ ls2)))"
  proof
    fix l assume "l \<in> set (ls1 @ ls2)"
    with lab2 labs have m: "isa_label l \<in> isa_label ` set ls1" by auto
    then have m': "isa_label l \<in> set (sort (map fst (fst cc)))" using labs by simp
    from need [rule_format, OF m'] cnt1 [OF m] E(2)
    show "min_images_per_combo cfg
            \<le> int (length (filter (\<lambda>l'. isa_label l' = isa_label l) (ls1 @ ls2)))" by simp
  qed
  from res s1 s2 len1' cov' floor show ?thesis by (intro exI [of _ ls1] exI [of _ ls2]) simp
qed

lemma count_shuffle:
  "length (filter P (shuffle xs g)) = length (filter P xs)"
proof -
  have "mset (filter P (shuffle xs g)) = mset (filter P xs)"
    by (simp only: mset_filter mset_shuffle)
  then show ?thesis by (metis size_mset)
qed

lemma example_weights: "build_family_weights example_index = [(''arm32'', 1), (''thumb'', 1)]"
  by code_simp


lemma example_engine_of: "engine_of example_index example_config example_engine"
  by (simp add: engine_of_def new_LayoutEngine_def example_weights example_engine_def)
    (simp add: example_index_def)

lemma example_config_sizes:
  "0 < min_size example_config \<and> min_size example_config \<le> 2 ^ 1023
   \<and> 0 < max_size example_config \<and> max_size example_config \<le> 2 ^ 1023"
  by (simp add: example_config_def)

lemma generate_batch_made:
  assumes eng: "engine_of idx cfg E" and res: "generate_batch E R cnt ms = Inr ls"
  shows "\<exists>ls1 ls2. ls = shuffle (ls1 @ ls2) (R ms)
     \<and> cnt \<le> int (length ls1) \<and> int (length (family_weights E)) \<le> int (length ls1)
     \<and> (\<forall>fam\<in>fst ` set (family_weights E). \<exists>l\<in>set ls1. primary_isa l = fam)
     \<and> (\<forall>l\<in>set (ls1 @ ls2). min_images_per_combo cfg
            \<le> int (length (filter (\<lambda>l'. isa_label l' = isa_label l) (ls1 @ ls2))))"
proof -
  let ?fw = "family_weights E"
  let ?fams = "map fst ?fw"
  let ?q = "phase1_quotas ?fw cnt"
  from engine_of_props [OF eng] have E: "blob_index E = idx" "config E = cfg"
    "?fw = build_family_weights idx" "?fw \<noteq> []" by auto
  from eng have di: "distinct (map fst idx)" by (simp add: engine_of_def)
  from build_family_weights_props [OF di] E(3)
  have dfw: "distinct ?fams"
    and known: "\<forall>fw\<in>set ?fw. map_of ISA_FAMILIES (fst fw) \<noteq> None"
    and pos: "list_all (\<lambda>kv. 0 < snd kv) ?fw"
    by (auto simp: list_all_iff)
  from phase1_quotas_props [OF dfw E(4) pos, of cnt]
  have qok: "quotas_ok ?fams 1 ?q" and s1: "cnt \<le> sum_list (map snd ?q)"
    and s2: "int (length ?fw) \<le> sum_list (map snd ?q)" by auto
  from qok dfw have dq: "distinct (map fst ?q)" by (simp add: quotas_ok_def)
  define cc where "cc = (\<lambda>ls1. count_combos ls1 ([], []))"
  from res E(4) obtain ls1 seq1 ls2 seq2 where
    p1: "phase1 E R ms ?q ?fams 0 = Inr (ls1, seq1)"
    and p2: "phase2 E R ms (fst (cc ls1)) (snd (cc ls1)) (sort (map fst (fst (cc ls1)))) seq1
               = Inr (ls2, seq2)"
    and ls: "ls = shuffle (ls1 @ ls2) (R ms)"
    unfolding generate_batch_def Let_def cc_def
    by (auto split: sum.splits prod.splits if_splits)
  from phase1_made [OF p1] have
    len1: "int (length ls1) = sum_list (map (\<lambda>fam. int (nat (the (map_of ?q fam)))) ?fams)"
    and mb1: "\<forall>l\<in>set ls1. \<exists>fam\<in>set ?fams. made_by E fam None l"
    and cov: "\<forall>fam\<in>set ?fams. 1 \<le> the (map_of ?q fam) \<longrightarrow> (\<exists>l\<in>set ls1. made_by E fam None l)"
    by auto
  have len1': "int (length ls1) = sum_list (map snd ?q)"
    using len1 quota_sum [OF dq qok] by simp
  have good1: "\<forall>l\<in>set ls1. good_families l"
    using mb1 made_by_good(1) [OF known] by blast
  have cov': "\<forall>fam\<in>fst ` set ?fw. \<exists>l\<in>set ls1. primary_isa l = fam"
  proof
    fix fam assume "fam \<in> fst ` set ?fw"
    then have m: "fam \<in> set ?fams" by simp
    from quota_lookup(2) [OF qok m] cov m obtain l where "l \<in> set ls1" "made_by E fam None l"
      by blast
    with made_by_good(2) [OF known] show "\<exists>l\<in>set ls1. primary_isa l = fam" by blast
  qed
  have inv: "combos_inv ls1 (cc ls1)" unfolding cc_def by (rule count_combos_props)
  have keys: "fst ` set (fst (cc ls1)) = isa_label ` set ls1"
    unfolding cc_def by (rule count_combos_keys)
  have labs: "set (sort (map fst (fst (cc ls1)))) = isa_label ` set ls1" using keys by simp
  have cnt1: "\<And>lab. lab \<in> isa_label ` set ls1 \<Longrightarrow>
     map_of (fst (cc ls1)) lab = Some (int (length (filter (\<lambda>l. isa_label l = lab) ls1)))"
    using inv [unfolded combos_inv_def] by (metis (no_types, lifting))
  have pre2: "\<forall>lab\<in>set (sort (map fst (fst (cc ls1)))). \<exists>l0. good_families l0
            \<and> isa_label l0 = lab \<and> map_of (snd (cc ls1)) lab = Some (primary_isa l0)"
  proof
    fix lab assume "lab \<in> set (sort (map fst (fst (cc ls1))))"
    with labs have m: "lab \<in> isa_label ` set ls1" by simp
    from inv [unfolded combos_inv_def, rule_format, of lab] m
    obtain l where l: "l \<in> set ls1" "isa_label l = lab"
      "map_of (snd (cc ls1)) lab = Some (primary_isa l)" by auto
    with good1 show "\<exists>l0. good_families l0
            \<and> isa_label l0 = lab \<and> map_of (snd (cc ls1)) lab = Some (primary_isa l0)" by blast
  qed
  from phase2_made [OF known pre2 p2] have
    lab2: "\<forall>l\<in>set ls2. isa_label l \<in> set (sort (map fst (fst (cc ls1))))"
    and need: "\<forall>lab\<in>set (sort (map fst (fst (cc ls1)))).
                 min_images_per_combo (config E) - the (map_of (fst (cc ls1)) lab)
                 \<le> int (length (filter (\<lambda>l. isa_label l = lab) ls2))" by auto
  have floor: "\<forall>l\<in>set (ls1 @ ls2). min_images_per_combo cfg
            \<le> int (length (filter (\<lambda>l'. isa_label l' = isa_label l) (ls1 @ ls2)))"
  proof
    fix l assume "l \<in> set (ls1 @ ls2)"
    with lab2 labs have m: "isa_label l \<in> isa_label ` set ls1" by auto
    then have m': "isa_label l \<in> set (sort (map fst (fst (cc ls1))))" using labs by simp
    from need [rule_format, OF m'] cnt1 [OF m] E(2)
    show "min_images_per_combo cfg
            \<le> int (length (filter (\<lambda>l'. isa_label l' = isa_label l) (ls1 @ ls2)))" by simp
  qed
  from ls s1 s2 len1' cov' floor show ?thesis by (intro exI [of _ ls1] exI [of _ ls2]) simp
qed

lemma generate_batch_total:
  assumes "engine_of idx cfg E" and "sizes_in_range cfg"
  shows "\<exists>ls. generate_batch E R cnt ms = Inr ls"
  using generate_batch_props [OF assms, of R cnt ms] by blast

text \<open>Claim C7: in every batch that \<open>generate_batch\<close> returns, every label \<open>isa_label\<close>
  that occurs among the layouts is the label of at least \<open>min_images_per_combo\<close> of
  them. It holds for every engine \<open>LayoutEngine.__init__\<close> builds, every configuration,
  count, master seed and random generator, whenever \<open>generate_batch\<close> returns (it raises
  when \<open>_pick_total_size\<close> does).\<close>

theorem generate_batch_combo_floor:
  assumes "engine_of idx cfg E" and "generate_batch E R cnt master_seed = Inr ls"
  shows "\<forall>l\<in>set ls. min_images_per_combo cfg
           \<le> int (length (filter (\<lambda>l'. isa_label l' = isa_label l) ls))"
proof -
  from generate_batch_made [OF assms] obtain ls1 ls2 where
    r: "ls = shuffle (ls1 @ ls2) (R master_seed)"
    and f: "\<forall>l\<in>set (ls1 @ ls2). min_images_per_combo cfg
            \<le> int (length (filter (\<lambda>l'. isa_label l' = isa_label l) (ls1 @ ls2)))"
    by blast
  show ?thesis
    unfolding r using f by (simp only: count_shuffle set_shuffle)
qed

theorem generate_batch_combo_floor_witness:
  "engine_of example_index example_config example_engine
   \<and> (\<exists>ls. generate_batch example_engine (\<lambda>s. [nat s, 7]) 1 5 = Inr ls \<and> ls \<noteq> []
         \<and> (\<forall>l\<in>set ls. 3 \<le> int (length (filter (\<lambda>l'. isa_label l' = isa_label l) ls))))"
proof -
  have sz: "sizes_in_range example_config"
    using example_config_sizes by (simp add: sizes_in_range_def)
  from generate_batch_total [OF example_engine_of sz, of "\<lambda>s. [nat s, 7]" 1 5] obtain ls where
    res: "generate_batch example_engine (\<lambda>s. [nat s, 7]) 1 5 = Inr ls" by blast
  from generate_batch_made [OF example_engine_of res] obtain ls1 ls2 where
    "ls = shuffle (ls1 @ ls2) [5, 7]" and "1 \<le> int (length ls1)" by auto
  then have "0 < length ls" by (cases ls1) (simp_all add: length_shuffle)
  then have ne: "ls \<noteq> []" by simp
  from generate_batch_combo_floor [OF example_engine_of res]
  have "\<forall>l\<in>set ls. 3 \<le> int (length (filter (\<lambda>l'. isa_label l' = isa_label l) ls))"
    by (simp add: example_config_def)
  with res ne example_engine_of show ?thesis by blast
qed



section \<open>Layouts at the example\<close>

lemma arm32_info:
  "map_of ISA_FAMILIES ''arm32'' = Some \<lparr>name = ''arm32'', endianness = ''little'', pointer_width = 32,
       triples = [''arm-unknown-linux-gnueabi'', ''arm-unknown-linux-gnueabihf'',
                  ''armv7-unknown-linux-gnueabihf''],
       header_types = [''vector_table_arm'', ''uboot'', ''android_boot'', ''bare''],
       typical_base_addr = 0x00000000, alignment = 4\<rparr>"
  by code_simp

lemma e1: "pick_primary_isa example_engine (0 # g) = (''arm32'', g)"
  by (simp add: pick_primary_isa_def example_engine_def weighted_choice_def random53_def draw_def)

lemma e2: "decide_multi_isa example_engine ''arm32'' None (4503599627370496 # g) = ([''arm32''], g)"
  by (simp add: decide_multi_isa_def random53_def draw_def example_engine_def example_config_def)

lemma e3: "pick_header_type ''arm32'' (3 # g) = (''bare'', g)"
  by (simp add: pick_header_type_def arm32_info choice_def randbelow_def draw_def)

lemma e4: "pick_trailer_type (8106479329266893 # g) = (''none'', g)"
  by (simp add: pick_trailer_type_def weighted_choice_def random53_def draw_def TRAILER_WEIGHTS_def)

lemma e5: "pick_total_size example_config (1024 # g) = Inr (1024, g)"
  by (simp add: pick_total_size_def example_config_def draw_def align_up_256)

lemma e6: "get_random_blob example_index ''arm32'' (d # g)
             = (Some (example_blob ''arm32'' ''arm-unknown-linux-gnueabi''), g)"
  by (simp add: get_random_blob_def get_blobs_def example_index_def choice_def randbelow_def draw_def)

lemma e7: "pick_non_code_section (6755399441055744 # 481 # g) 513
             = ((RANDOM, 513, [(''source'', JStr ''random'')]), g)"
  by (simp add: pick_non_code_section_def weighted_choice_def random53_def draw_def
        NON_CODE_WEIGHTS_def randint_def randbelow_def Let_def)

lemma s1:
  "code_step example_index
     \<lparr>ls_sections = [], ls_cursor = 0, ls_code_remaining = 511, ls_noncode_budget = 513,
      ls_family_queue = [''arm32''],
      ls_rng = 0 # 0 # 0 # 6755399441055744 # 481 # g\<rparr>
   = Inr (Continue
     \<lparr>ls_sections = take 2 overflow_sections, ls_cursor = 613, ls_code_remaining = 411,
      ls_noncode_budget = 0, ls_family_queue = [''arm32''], ls_rng = g\<rparr>)"
  by (simp add: code_step_def arm32_info e6 e7 choice_def randbelow_def draw_def Let_def
        code_section_size_def align_up_4 align_cursor_def append_code_def maybe_noncode_def
        random53_def overflow_sections_def example_code_def example_blob_def)

lemma s2:
  "code_step example_index
     \<lparr>ls_sections = take 2 overflow_sections, ls_cursor = 613, ls_code_remaining = 411,
      ls_noncode_budget = 0, ls_family_queue = [''arm32''],
      ls_rng = 0 # 4 # 4503599627370496 # g\<rparr>
   = Inr (Continue
     \<lparr>ls_sections = take 4 overflow_sections, ls_cursor = 916, ls_code_remaining = 111,
      ls_noncode_budget = 0, ls_family_queue = [''arm32''], ls_rng = g\<rparr>)"
  by (simp add: code_step_def arm32_info e6 choice_def randbelow_def draw_def Let_def
        code_section_size_def align_up_4 align_cursor_def append_code_def maybe_noncode_def
        random53_def overflow_sections_def example_code_def example_blob_def)

lemma s3:
  "code_step example_index
     \<lparr>ls_sections = take 4 overflow_sections, ls_cursor = 916, ls_code_remaining = 111,
      ls_noncode_budget = 0, ls_family_queue = [''arm32''],
      ls_rng = 0 # 4 # 4503599627370496 # g\<rparr>
   = Inr (Continue
     \<lparr>ls_sections = overflow_sections, ls_cursor = 1027, ls_code_remaining = 0,
      ls_noncode_budget = 0, ls_family_queue = [''arm32''], ls_rng = g\<rparr>)"
  by (simp add: code_step_def arm32_info e6 choice_def randbelow_def draw_def Let_def
        code_section_size_def align_up_4 align_cursor_def append_code_def maybe_noncode_def
        random53_def overflow_sections_def example_code_def example_blob_def)

lemma s4:
  "code_loop example_index
     \<lparr>ls_sections = [], ls_cursor = 0, ls_code_remaining = 511, ls_noncode_budget = 513,
      ls_family_queue = [''arm32''],
      ls_rng = [0, 0, 0, 6755399441055744, 481, 0, 4, 4503599627370496,
                0, 4, 4503599627370496]\<rparr>
   = Inr \<lparr>ls_sections = overflow_sections, ls_cursor = 1027, ls_code_remaining = 0,
          ls_noncode_budget = 0, ls_family_queue = [''arm32''], ls_rng = []\<rparr>"
  apply (subst code_loop.simps, simp add: s1)
  apply (subst code_loop.simps, simp add: s2)
  apply (subst code_loop.simps, simp add: s3)
  apply (subst code_loop.simps, simp)
  done

lemma s5:
  "build_sections example_index [''arm32''] ''bare'' ''none'' 0 1024
     [4494592428115755, 0, 0, 0, 6755399441055744, 481, 0, 4, 4503599627370496,
      0, 4, 4503599627370496]
   = Inr (overflow_sections, 1024)"
  apply (simp add: build_sections_def HEADER_SIZES_def random53_def draw_def Let_def s4)
  apply (subst fill_loop.simps)
  apply (simp add: close_gap_def append_trailer_def)
  done

lemma str_int_42: "str_int 42 = ''42''" by code_simp
lemma fmt_06d_0: "fmt_06d 0 = ''000000''" by code_simp

lemma overflow_layout_generated:
  "generate_layout example_engine overflow_draws 0 None None = Inr overflow_layout"
proof -
  have E: "blob_index example_engine = example_index" "config example_engine = example_config"
    "FirmwareGenConfig.seed example_config = 42"
    by (simp_all add: example_engine_def example_config_def)
  show ?thesis
    by (simp add: generate_layout_def overflow_draws_def e1 arm32_info e2 e3 e4 e5 s5 E
          TRAILER_SIZES_def str_int_42 fmt_06d_0 overflow_layout_def)
qed







text \<open>Claim C2, at the engine of the example, with the generator outcomes
  \<open>overflow_draws\<close>: a 1024-byte image without header or trailer, 511 bytes of code budget
  and 513 bytes for other content. The first code section is followed by a
  random-data section that takes all 513 bytes, so the cursor stands at 613; the next
  code section needs 3 bytes of alignment padding, which no budget pays for, and the last
  code section takes what is left of the code budget. The sections end at 1027, past
  \<open>total_size\<close>.\<close>

theorem generate_layout_overflow:
  "generate_layout example_engine overflow_draws 0 None None = Inr overflow_layout
   \<and> total_size overflow_layout = 1024
   \<and> map (\<lambda>s. (offset s, size_s s)) (sections overflow_layout)
        = [(0, 100), (100, 513), (613, 3), (616, 300), (916, 111)]
   \<and> end_of 0 (sections overflow_layout) = 1027
   \<and> \<not> tiles overflow_layout"
  using overflow_layout_generated
  by (simp add: overflow_layout_def overflow_sections_def example_code_def tiles_def end_of_def)

lemma has_blobs_no_family [simp]:
  "has_blobs idx \<lparr>offset = a, size_s = b, section_type = c, alignment = d, isa_family = None,
                    fill_params = e\<rparr>"
  by (simp add: has_blobs_def)

lemma has_blobs_maybe_noncode:
  "list_all (has_blobs idx) (ls_sections st) \<Longrightarrow>
     list_all (has_blobs idx) (ls_sections (maybe_noncode st))"
  by (auto simp: maybe_noncode_def Let_def split: prod.splits)

lemma has_blobs_align_cursor:
  "list_all (has_blobs idx) (ls_sections st) \<Longrightarrow>
     list_all (has_blobs idx) (ls_sections (align_cursor a st))"
  by (auto simp: align_cursor_def Let_def)

lemma has_blobs_append_code:
  "list_all (has_blobs idx) (ls_sections st) \<Longrightarrow> get_blobs idx fam \<noteq> [] \<Longrightarrow>
     list_all (has_blobs idx) (ls_sections (append_code fam a blob sz st))"
  by (auto simp: append_code_def has_blobs_def)

lemma get_random_blob_Some:
  "get_random_blob idx fam g = (Some blob, g') \<Longrightarrow> get_blobs idx fam \<noteq> []"
  by (auto simp: get_random_blob_def Let_def split: if_splits)

lemma has_blobs_code_step:
  assumes inv: "list_all (has_blobs idx) (ls_sections st)" and step: "code_step idx st = Inr r"
  shows "list_all (has_blobs idx) (ls_sections (case r of Break s \<Rightarrow> s | Continue s \<Rightarrow> s))"
  using step
proof (cases rule: code_step_cases)
  case (empty fam queue_tl g1 st')
  then show ?thesis using inv by auto
next
  case (small fam queue_tl blob g1 m g2)
  then show ?thesis using inv by simp
next
  case (emit fam queue_tl blob g1 m g2)
  have "list_all (has_blobs idx)
          (ls_sections (st\<lparr>ls_family_queue := queue_tl @ [fam], ls_rng := g2\<rparr>))"
    using inv by simp
  then show ?thesis
    unfolding emit(5) using get_random_blob_Some [OF emit(2)]
    by (simp add: has_blobs_maybe_noncode has_blobs_append_code has_blobs_align_cursor)
qed

lemma has_blobs_code_loop:
  "list_all (has_blobs idx) (ls_sections st) \<Longrightarrow> code_loop idx st = Inr st' \<Longrightarrow>
     list_all (has_blobs idx) (ls_sections st')"
proof (induction idx st rule: code_loop.induct)
  case (1 idx st)
  show ?case
  proof (cases "64 \<le> ls_code_remaining st")
    case False
    then have "code_loop idx st = Inr st" by (subst code_loop.simps) auto
    with 1(2,3) show ?thesis by simp
  next
    case True
    show ?thesis
    proof (cases "code_step idx st")
      case (Inl e)
      then have "code_loop idx st = Inl e" using True by (subst code_loop.simps) auto
      with 1(3) show ?thesis by simp
    next
      case (Inr r)
      note inv = has_blobs_code_step [OF 1(2) Inr]
      show ?thesis
      proof (cases r)
        case (Break s)
        then have "code_loop idx st = Inr s" using True Inr by (subst code_loop.simps) auto
        with inv Break 1(3) show ?thesis by simp
      next
        case (Continue s)
        then have e: "code_loop idx st = code_loop idx s"
          using True Inr by (subst code_loop.simps) auto
        show ?thesis
          using 1(1) [OF True Inr Continue] inv Continue e 1(3) by simp
      qed
    qed
  qed
qed

lemma has_blobs_fill_loop:
  "list_all (has_blobs idx) (ls_sections st) \<Longrightarrow>
     list_all (has_blobs idx) (ls_sections (fill_loop limit st))"
proof (induction limit st rule: fill_loop.induct)
  case (1 limit st)
  show ?case
  proof (cases "32 \<le> ls_noncode_budget st \<and> ls_cursor st < limit")
    case False
    then have "fill_loop limit st = st" by (subst fill_loop.simps) auto
    with 1 show ?thesis by simp
  next
    case True
    show ?thesis
    proof (cases "fill_step limit st")
      case (Break st')
      then have "fill_loop limit st = st'" using True by (subst fill_loop.simps) auto
      moreover have "ls_sections st' = ls_sections st"
        using Break by (auto simp: fill_step_def Let_def split: prod.splits if_splits)
      ultimately show ?thesis using 1(2) by simp
    next
      case (Continue st')
      then have e: "fill_loop limit st = fill_loop limit st'"
        using True by (subst fill_loop.simps) auto
      have "list_all (has_blobs idx) (ls_sections st')"
        using Continue 1(2)
        by (auto simp: fill_step_def Let_def split: prod.splits if_splits)
      with 1(1) [OF True Continue] e show ?thesis by simp
    qed
  qed
qed

lemma has_blobs_build_sections:
  assumes "build_sections idx fams htype ttype ts total0 g = Inr (secs, T)"
  shows "list_all (has_blobs idx) secs"
proof -
  let ?hs = "header_size_of htype"
  let ?sections0 = "if ?hs > 0 then [header_section htype] else []"
  let ?cursor0 = "if ?hs > 0 then ?hs else 0"
  let ?usable0 = "total0 - ?cursor0 - ts"
  let ?T = "if ?usable0 < 64 then ?cursor0 + ts + 256 else total0"
  let ?usable = "if ?usable0 < 64 then 256 else ?usable0"
  obtain kf g1 where r: "random53 g = (kf, g1)" by (cases "random53 g")
  let ?cb = "(?usable * (3 * 9007199254740992 + 4 * int kf)) div (10 * 9007199254740992)"
  let ?st0 = "\<lparr>ls_sections = ?sections0, ls_cursor = ?cursor0, ls_code_remaining = ?cb,
               ls_noncode_budget = ?usable - ?cb, ls_family_queue = fams, ls_rng = g1\<rparr>"
  have unf: "build_sections idx fams htype ttype ts total0 g
               = (case code_loop idx ?st0 of Inl e \<Rightarrow> Inl e
                  | Inr st1 \<Rightarrow> Inr (append_trailer ttype ts
                       (close_gap ?T ts (fill_loop (?T - ts) st1)), ?T))"
    using r
    unfolding build_sections_def Let_def header_size_of_def [symmetric] header_section_def
    by simp
  from assms unf obtain st1 where cl: "code_loop idx ?st0 = Inr st1"
    and secs: "secs = append_trailer ttype ts (close_gap ?T ts (fill_loop (?T - ts) st1))"
    by (auto split: sum.splits)
  have st0: "list_all (has_blobs idx) (ls_sections ?st0)"
    by (simp add: header_section_def)
  have "list_all (has_blobs idx) (ls_sections (fill_loop (?T - ts) st1))"
    using has_blobs_code_loop [OF st0 cl] by (rule has_blobs_fill_loop)
  then show ?thesis
    unfolding secs by (auto simp: append_trailer_def close_gap_def Let_def)
qed

lemma has_blobs_generate_layout:
  assumes "generate_layout E g seq p f = Inr l"
  shows "list_all (has_blobs (blob_index E)) (sections l)"
  using assms
proof (cases rule: generate_layout_cases)
  case (1 primary g1 info fams g4 htype g5 ttype g6 total0 g7 secs T)
  from has_blobs_build_sections [OF 1(7)] show ?thesis unfolding 1(8) by simp
qed

lemma no_aarch64_blob: "get_random_blob example_index ''aarch64'' g = (None, g)"
  by (simp add: get_random_blob_def get_blobs_def example_index_def)

lemma f1:
  "code_step example_index
     \<lparr>ls_sections = [], ls_cursor = 0, ls_code_remaining = 511, ls_noncode_budget = 513,
      ls_family_queue = [''arm32'', ''aarch64''],
      ls_rng = 0 # 0 # 4503599627370496 # g\<rparr>
   = Inr (Continue
     \<lparr>ls_sections = [example_code 0 100], ls_cursor = 100, ls_code_remaining = 411,
      ls_noncode_budget = 513, ls_family_queue = [''aarch64'', ''arm32''], ls_rng = g\<rparr>)"
  by (simp add: code_step_def arm32_info e6 choice_def randbelow_def draw_def Let_def
        code_section_size_def align_up_4 align_cursor_def append_code_def maybe_noncode_def
        random53_def forced_sections_def example_code_def example_blob_def)

lemma f2:
  "code_step example_index
     \<lparr>ls_sections = [example_code 0 100], ls_cursor = 100, ls_code_remaining = 411,
      ls_noncode_budget = 513, ls_family_queue = [''aarch64'', ''arm32''], ls_rng = g\<rparr>
   = Inr (Continue
     \<lparr>ls_sections = [example_code 0 100], ls_cursor = 100, ls_code_remaining = 411,
      ls_noncode_budget = 513, ls_family_queue = [''arm32''], ls_rng = g\<rparr>)"
  by (simp add: code_step_def no_aarch64_blob Let_def)

lemma f3:
  "code_step example_index
     \<lparr>ls_sections = [example_code 0 100], ls_cursor = 100, ls_code_remaining = 411,
      ls_noncode_budget = 513, ls_family_queue = [''arm32''],
      ls_rng = 0 # 4 # 4503599627370496 # g\<rparr>
   = Inr (Continue
     \<lparr>ls_sections = [example_code 0 100, example_code 100 300], ls_cursor = 400, ls_code_remaining = 111,
      ls_noncode_budget = 513, ls_family_queue = [''arm32''], ls_rng = g\<rparr>)"
  by (simp add: code_step_def arm32_info e6 choice_def randbelow_def draw_def Let_def
        code_section_size_def align_up_4 align_cursor_def append_code_def maybe_noncode_def
        random53_def forced_sections_def example_code_def example_blob_def)

lemma f4:
  "code_step example_index
     \<lparr>ls_sections = [example_code 0 100, example_code 100 300], ls_cursor = 400, ls_code_remaining = 111,
      ls_noncode_budget = 513, ls_family_queue = [''arm32''],
      ls_rng = 0 # 4 # 4503599627370496 # g\<rparr>
   = Inr (Continue
     \<lparr>ls_sections = [example_code 0 100, example_code 100 300, example_code 400 111], ls_cursor = 511, ls_code_remaining = 0,
      ls_noncode_budget = 513, ls_family_queue = [''arm32''], ls_rng = g\<rparr>)"
  by (simp add: code_step_def arm32_info e6 choice_def randbelow_def draw_def Let_def
        code_section_size_def align_up_4 align_cursor_def append_code_def maybe_noncode_def
        random53_def forced_sections_def example_code_def example_blob_def)

lemma f5:
  "code_loop example_index
     \<lparr>ls_sections = [], ls_cursor = 0, ls_code_remaining = 511, ls_noncode_budget = 513,
      ls_family_queue = [''arm32'', ''aarch64''],
      ls_rng = 0 # 0 # 4503599627370496 # 0 # 4 # 4503599627370496
               # 0 # 4 # 4503599627370496 # g\<rparr>
   = Inr \<lparr>ls_sections = [example_code 0 100, example_code 100 300, example_code 400 111], ls_cursor = 511, ls_code_remaining = 0,
          ls_noncode_budget = 513, ls_family_queue = [''arm32''], ls_rng = g\<rparr>"
  apply (subst code_loop.simps, simp add: f1)
  apply (subst code_loop.simps, simp add: f2)
  apply (subst code_loop.simps, simp add: f3)
  apply (subst code_loop.simps, simp add: f4)
  apply (subst code_loop.simps, simp)
  done

lemma f6:
  "fill_loop 1024
     \<lparr>ls_sections = [example_code 0 100, example_code 100 300, example_code 400 111], ls_cursor = 511, ls_code_remaining = 0,
      ls_noncode_budget = 513, ls_family_queue = [''arm32''],
      ls_rng = [6755399441055744, 481]\<rparr>
   = \<lparr>ls_sections = forced_sections, ls_cursor = 1024, ls_code_remaining = 0,
      ls_noncode_budget = 0, ls_family_queue = [''arm32''], ls_rng = []\<rparr>"
  apply (subst fill_loop.simps, simp add: fill_step_def e7 forced_sections_def)
  apply (subst fill_loop.simps, simp)
  done

lemma f7:
  "build_sections example_index [''arm32'', ''aarch64''] ''bare'' ''none'' 0 1024
     [4494592428115755, 0, 0, 4503599627370496, 0, 4, 4503599627370496,
      0, 4, 4503599627370496, 6755399441055744, 481]
   = Inr (forced_sections, 1024)"
  by (simp add: build_sections_def HEADER_SIZES_def random53_def draw_def Let_def f5 f6
        close_gap_def append_trailer_def)

lemma forced_layout_generated:
  "generate_layout example_engine forced_draws 0 (Some ''arm32'') (Some [''aarch64''])
     = Inr forced_layout"
proof -
  have E: "blob_index example_engine = example_index" "config example_engine = example_config"
    "FirmwareGenConfig.seed example_config = 42"
    by (simp_all add: example_engine_def example_config_def)
  show ?thesis
    by (simp add: generate_layout_def forced_draws_def arm32_info decide_multi_isa_def
          e3 e4 e5 f7 E TRAILER_SIZES_def str_int_42 fmt_06d_0 forced_layout_def)
qed

text \<open>Claim C8, as stated, at the example: \<open>aarch64\<close> has no blob in the index, and
  \<open>generate_layout\<close> with the forced combination \<open>arm32\<close>, \<open>aarch64\<close> returns a layout
  all the same.\<close>

theorem forced_family_not_skipped:
  "get_blobs example_index ''aarch64'' = []
   \<and> generate_layout example_engine forced_draws 0 (Some ''arm32'') (Some [''aarch64''])
       = Inr forced_layout
   \<and> all_isa_families forced_layout = [''arm32'', ''aarch64'']"
  using forced_layout_generated
  by (simp add: get_blobs_def example_index_def forced_layout_def)

text \<open>Claim C8, amended: when the forced combination (the primary ISA and the forced
  secondaries) names a family without a blob in the index, \<open>generate_layout\<close> still
  returns a layout, for a primary ISA of the database and size bounds with which
  \<open>_pick_total_size\<close> returns. The layout keeps the whole combination as its
  \<open>all_isa_families\<close>, and none of its sections carries the family without blobs: the
  code loop drops that family from its queue.\<close>

theorem forced_family_without_blobs:
  assumes "map_of ISA_FAMILIES p \<noteq> None"
    and "0 < min_size (config E)" and "min_size (config E) \<le> 2 ^ 1023"
    and "0 < max_size (config E)" and "max_size (config E) \<le> 2 ^ 1023"
    and "fam \<in> set (p # forced)" and "get_blobs (blob_index E) fam = []"
  shows "\<exists>l. generate_layout E g seq (Some p) (Some forced) = Inr l
           \<and> all_isa_families l = p # forced
           \<and> (\<forall>s\<in>set (sections l). isa_family s \<noteq> Some fam)"
proof -
  have sz: "sizes_in_range (config E)" using assms(2-5) by (simp add: sizes_in_range_def)
  from generate_layout_total [OF assms(1) sz, of g seq "Some forced"] obtain l where
    l: "generate_layout E g seq (Some p) (Some forced) = Inr l" by blast
  from generate_layout_props [OF l] have fams: "all_isa_families l = p # forced" by auto
  have "isa_family s \<noteq> Some fam" if "s \<in> set (sections l)" for s
  proof
    assume "isa_family s = Some fam"
    moreover from has_blobs_generate_layout [OF l] that have "has_blobs (blob_index E) s"
      by (simp add: list_all_iff)
    ultimately show False using assms(7) by (simp add: has_blobs_def)
  qed
  with l fams show ?thesis by blast
qed

theorem forced_family_without_blobs_witness:
  "map_of ISA_FAMILIES ''arm32'' \<noteq> None
   \<and> 0 < min_size (config example_engine) \<and> min_size (config example_engine) \<le> 2 ^ 1023
   \<and> 0 < max_size (config example_engine) \<and> max_size (config example_engine) \<le> 2 ^ 1023
   \<and> ''aarch64'' \<in> set [''arm32'', ''aarch64'']
   \<and> get_blobs (blob_index example_engine) ''aarch64'' = []
   \<and> (\<exists>l. generate_layout example_engine forced_draws 0 (Some ''arm32'') (Some [''aarch64''])
              = Inr l
         \<and> all_isa_families l = [''arm32'', ''aarch64'']
         \<and> (\<forall>s\<in>set (sections l). isa_family s \<noteq> Some ''aarch64''))"
proof -
  have a: "map_of ISA_FAMILIES ''arm32'' \<noteq> None" by (simp add: arm32_info)
  have b: "0 < min_size (config example_engine) \<and> min_size (config example_engine) \<le> 2 ^ 1023
     \<and> 0 < max_size (config example_engine) \<and> max_size (config example_engine) \<le> 2 ^ 1023"
    by (simp add: example_engine_def example_config_def)
  have c: "get_blobs (blob_index example_engine) ''aarch64'' = []"
    by (simp add: example_engine_def get_blobs_def example_index_def)
  from forced_family_without_blobs [of "''arm32''" example_engine "''aarch64''" "[''aarch64'']"
          forced_draws 0] a b c
  show ?thesis by simp
qed

section \<open>The assembler\<close>



































end
